theory Spec2Isabelle
  imports Main "HOL-Library.AList" "HOL-Library.Char_ord" "HOL-Library.List_Lexorder"
    "HOL-Library.Product_Lexorder"
begin

section \<open>Python values and exceptions\<close>

text \<open>
  The notebook \<^verbatim>\<open>map_creating&selection.ipynb\<close> builds a NetworkX graph of players from
  the roster table, enumerates the simple paths of a fixed number of nodes, scores node
  groups and picks the best one. Exceptions are values: a computation that can raise
  returns \<open>error + 'a\<close>, with \<open>Inl\<close> for the exception.
\<close>

datatype error = KeyError | NetworkXError | TypeError

text \<open>
  A \<^verbatim>\<open>for\<close> loop whose body may raise: the loop stops at the first exception, otherwise
  the state produced by one iteration is the state the next one starts in.
\<close>

fun for_loop :: "('a \<Rightarrow> 's \<Rightarrow> error + 's) \<Rightarrow> 'a list \<Rightarrow> 's \<Rightarrow> error + 's" where
  "for_loop body [] s = Inr s"
| "for_loop body (x # xs) s =
     (case body x s of Inl e \<Rightarrow> Inl e | Inr s' \<Rightarrow> for_loop body xs s')"

text \<open>\<^verbatim>\<open>itertools.combinations(xs, 2)\<close>: the pairs of positions \<open>i < j\<close>, in lexicographic
  order of the positions.\<close>

fun combinations2 :: "'a list \<Rightarrow> ('a \<times> 'a) list" where
  "combinations2 [] = []"
| "combinations2 (x # xs) = map (Pair x) xs @ combinations2 xs"

section \<open>The NetworkX graph\<close>

text \<open>
  An attribute dictionary of the notebook only ever holds the key \<^verbatim>\<open>'weight'\<close>; it is
  modelled by the value stored under that key, \<open>None\<close> when the key is absent.
  \<^verbatim>\<open>nx.Graph\<close> keeps two insertion-ordered dictionaries: \<^verbatim>\<open>_node\<close> from a node to its
  attributes and \<^verbatim>\<open>_adj\<close> from a node to the dictionary of its neighbours, each neighbour
  mapped to the attributes of the edge. Dictionaries are association lists: a new key
  is appended, a known key is updated in place (\<^const>\<open>AList.update\<close>).
\<close>

type_synonym attrs = "int option"

record 'n graph =
  node :: "('n \<times> attrs) list"
  adj :: "('n \<times> ('n \<times> attrs) list) list"

definition empty_graph :: "'n graph" where
  "empty_graph = \<lparr>node = [], adj = []\<rparr>"

text \<open>\<^verbatim>\<open>d.get('weight', 0)\<close> on an attribute dictionary.\<close>

definition get_weight :: "attrs \<Rightarrow> int" where
  "get_weight d = (case d of None \<Rightarrow> 0 | Some w \<Rightarrow> w)"

text \<open>\<^verbatim>\<open>G.nodes()\<close> iterates the nodes in insertion order.\<close>

definition nodes :: "'n graph \<Rightarrow> 'n list" where
  "nodes G = map fst (node G)"

text \<open>\<^verbatim>\<open>G.nodes[n]\<close> raises \<^verbatim>\<open>KeyError\<close> for a node that is not in the graph.\<close>

definition nodes_getitem :: "'n graph \<Rightarrow> 'n \<Rightarrow> error + attrs" where
  "nodes_getitem G n = (case map_of (node G) n of None \<Rightarrow> Inl KeyError | Some d \<Rightarrow> Inr d)"

text \<open>\<^verbatim>\<open>G.has_edge(u, v)\<close>: \<^verbatim>\<open>v in self._adj[u]\<close>, and \<^verbatim>\<open>False\<close> when \<^verbatim>\<open>u\<close> is unknown.\<close>

definition has_edge :: "'n graph \<Rightarrow> 'n \<Rightarrow> 'n \<Rightarrow> bool" where
  "has_edge G u v =
     (case map_of (adj G) u of None \<Rightarrow> False | Some nbrs \<Rightarrow> map_of nbrs v \<noteq> None)"

text \<open>\<^verbatim>\<open>G[u][v]\<close>: the attributes of the edge, \<^verbatim>\<open>KeyError\<close> when there is none.\<close>

definition edge_getitem :: "'n graph \<Rightarrow> 'n \<Rightarrow> 'n \<Rightarrow> error + attrs" where
  "edge_getitem G u v =
     (case map_of (adj G) u of
        None \<Rightarrow> Inl KeyError
      | Some nbrs \<Rightarrow> (case map_of nbrs v of None \<Rightarrow> Inl KeyError | Some d \<Rightarrow> Inr d))"

text \<open>\<^verbatim>\<open>G.neighbors(n)\<close> iterates \<^verbatim>\<open>self._adj[n]\<close> in insertion order and raises
  \<^verbatim>\<open>NetworkXError\<close> when \<^verbatim>\<open>n\<close> is not in the graph.\<close>

definition neighbors :: "'n graph \<Rightarrow> 'n \<Rightarrow> error + 'n list" where
  "neighbors G n =
     (case map_of (adj G) n of None \<Rightarrow> Inl NetworkXError | Some nbrs \<Rightarrow> Inr (map fst nbrs))"

text \<open>\<^verbatim>\<open>G.add_node(n, weight=w)\<close>: a new node gets an empty neighbour dictionary; the
  attribute is stored in either case.\<close>

definition add_node :: "'n graph \<Rightarrow> 'n \<Rightarrow> int \<Rightarrow> 'n graph" where
  "add_node G n w =
     \<lparr>node = AList.update n (Some w) (node G),
      adj = (if map_of (node G) n = None then AList.update n [] (adj G) else adj G)\<rparr>"

text \<open>\<^verbatim>\<open>self._adj[u][v] = d\<close>.\<close>

definition adj_setitem ::
  "'n \<Rightarrow> 'n \<Rightarrow> attrs \<Rightarrow> ('n \<times> ('n \<times> attrs) list) list \<Rightarrow> ('n \<times> ('n \<times> attrs) list) list" where
  "adj_setitem u v d a =
     AList.update u (AList.update v d (case map_of a u of None \<Rightarrow> [] | Some nbrs \<Rightarrow> nbrs)) a"

text \<open>The first step of \<^verbatim>\<open>add_edge\<close>: an endpoint that is not yet a node is added with
  empty attributes.\<close>

definition ensure_node :: "'n graph \<Rightarrow> 'n \<Rightarrow> 'n graph" where
  "ensure_node G n =
     (if map_of (node G) n = None
      then \<lparr>node = AList.update n None (node G), adj = AList.update n [] (adj G)\<rparr>
      else G)"

text \<open>\<^verbatim>\<open>G.add_edge(u, v, weight=w)\<close>. NetworkX stores one attribute dictionary per edge
  and refers to it from \<^verbatim>\<open>_adj[u][v]\<close> and from \<^verbatim>\<open>_adj[v][u]\<close>; the model writes the value
  at both places.\<close>

definition add_edge :: "'n graph \<Rightarrow> 'n \<Rightarrow> 'n \<Rightarrow> int \<Rightarrow> 'n graph" where
  "add_edge G u v w =
     (let G' = ensure_node (ensure_node G u) v
      in G'\<lparr>adj := adj_setitem v u (Some w) (adj_setitem u v (Some w) (adj G'))\<rparr>)"

text \<open>\<^verbatim>\<open>G[u][v]['weight'] += 1\<close>: both lookups and the read of \<^verbatim>\<open>'weight'\<close> raise
  \<^verbatim>\<open>KeyError\<close> when the key is missing; the write goes to the edge's one attribute
  dictionary, seen from both endpoints.\<close>

definition incr_edge_weight :: "'n graph \<Rightarrow> 'n \<Rightarrow> 'n \<Rightarrow> error + 'n graph" where
  "incr_edge_weight G u v =
     (case edge_getitem G u v of
        Inl e \<Rightarrow> Inl e
      | Inr None \<Rightarrow> Inl KeyError
      | Inr (Some w) \<Rightarrow>
          Inr (G\<lparr>adj := adj_setitem v u (Some (w + 1)) (adj_setitem u v (Some (w + 1)) (adj G))\<rparr>))"

section \<open>Scoring and selection\<close>

text \<open>The generator summed for \<^verbatim>\<open>node_sum\<close>: the weights are added from the left, and the
  first member that is not a node raises.\<close>

fun node_sum :: "'n graph \<Rightarrow> 'n list \<Rightarrow> int \<Rightarrow> error + int" where
  "node_sum G [] acc = Inr acc"
| "node_sum G (n # ns) acc =
     (case nodes_getitem G n of
        Inl e \<Rightarrow> Inl e
      | Inr d \<Rightarrow> node_sum G ns (acc + get_weight d))"

text \<open>The body of the loop over \<^verbatim>\<open>itertools.combinations(group, 2)\<close>.\<close>

definition edge_step :: "'n graph \<Rightarrow> 'n \<times> 'n \<Rightarrow> int \<Rightarrow> error + int" where
  "edge_step G p edge_sum =
     (case p of (u, v) \<Rightarrow>
        if has_edge G u v
        then (case edge_getitem G u v of
                Inl e \<Rightarrow> Inl e
              | Inr d \<Rightarrow> Inr (edge_sum + get_weight d))
        else Inr edge_sum)"

definition compute_group_score :: "'n graph \<Rightarrow> 'n list \<Rightarrow> error + int" where
  "compute_group_score G grp =
     (case node_sum G grp 0 of
        Inl e \<Rightarrow> Inl e
      | Inr ns \<Rightarrow>
          (case for_loop (edge_step G) (combinations2 grp) 0 of
             Inl e \<Rightarrow> Inl e
           | Inr edge_sum \<Rightarrow> Inr (ns + edge_sum)))"

text \<open>The loop of \<^verbatim>\<open>find_max_group\<close>; its state is the pair
  \<^verbatim>\<open>(best_group, best_score)\<close>, both \<^verbatim>\<open>None\<close> at the start.\<close>

definition max_step ::
  "'n graph \<Rightarrow> 'n list \<Rightarrow> 'n list option \<times> int option \<Rightarrow> error + ('n list option \<times> int option)" where
  "max_step G grp st =
     (case compute_group_score G grp of
        Inl e \<Rightarrow> Inl e
      | Inr score \<Rightarrow>
          (case snd st of
             None \<Rightarrow> Inr (Some grp, Some score)
           | Some best_score \<Rightarrow>
               if score > best_score then Inr (Some grp, Some score) else Inr st))"

definition find_max_group ::
  "'n graph \<Rightarrow> 'n list list \<Rightarrow> error + ('n list option \<times> int option)" where
  "find_max_group G groups = for_loop (max_step G) groups (None, None)"

text \<open>\<^verbatim>\<open>query_paths_with_node\<close>: the paths that contain the node, in the library's order.\<close>

definition query_paths_with_node :: "'n list list \<Rightarrow> 'n \<Rightarrow> 'n list list" where
  "query_paths_with_node path_library query_node =
     filter (\<lambda>path. query_node \<in> set path) path_library"

text \<open>The graph of the worked example: nodes A (3), B (2), C (2), D (1), E (1) and edges
  A-B (2), A-C (1), B-C (1), C-D (1), D-E (1), added in this order.\<close>

definition scenario :: "string graph" where
  "scenario =
     add_edge (add_edge (add_edge (add_edge (add_edge
       (add_node (add_node (add_node (add_node (add_node empty_graph
          ''A'' 3) ''B'' 2) ''C'' 2) ''D'' 1) ''E'' 1)
       ''A'' ''B'' 2) ''A'' ''C'' 1) ''B'' ''C'' 1) ''C'' ''D'' 1) ''D'' ''E'' 1"

lemma scenario_eq:
  "scenario =
     \<lparr>node = [(''A'', Some 3), (''B'', Some 2), (''C'', Some 2), (''D'', Some 1), (''E'', Some 1)],
      adj = [(''A'', [(''B'', Some 2), (''C'', Some 1)]),
             (''B'', [(''A'', Some 2), (''C'', Some 1)]),
             (''C'', [(''A'', Some 1), (''B'', Some 1), (''D'', Some 1)]),
             (''D'', [(''C'', Some 1), (''E'', Some 1)]),
             (''E'', [(''D'', Some 1)])]\<rparr>"
  by (simp add: scenario_def add_edge_def add_node_def ensure_node_def adj_setitem_def
      empty_graph_def Let_def)

lemma nodes_scenario: "nodes scenario = [''A'', ''B'', ''C'', ''D'', ''E'']"
  by (simp add: scenario_eq nodes_def)

section \<open>What a graph says about a node and about a pair of nodes\<close>

text \<open>The weight read for a node, the attributes stored for the pair \<open>(u, v)\<close> (\<open>None\<close>
  when \<open>v\<close> is not a neighbour of \<open>u\<close>) and the weight read for an edge.\<close>

definition node_weight :: "'n graph \<Rightarrow> 'n \<Rightarrow> int" where
  "node_weight G n = (case map_of (node G) n of None \<Rightarrow> 0 | Some d \<Rightarrow> get_weight d)"

definition edge_attrs :: "'n graph \<Rightarrow> 'n \<Rightarrow> 'n \<Rightarrow> attrs option" where
  "edge_attrs G u v = (case map_of (adj G) u of None \<Rightarrow> None | Some nbrs \<Rightarrow> map_of nbrs v)"

definition edge_weight :: "'n graph \<Rightarrow> 'n \<Rightarrow> 'n \<Rightarrow> int" where
  "edge_weight G u v = (case edge_attrs G u v of None \<Rightarrow> 0 | Some d \<Rightarrow> get_weight d)"

text \<open>The value \<^const>\<open>compute_group_score\<close> returns when it returns one.\<close>

definition score_value :: "'n graph \<Rightarrow> 'n list \<Rightarrow> int" where
  "score_value G g = sum_list (map (node_weight G) g)
     + sum_list (map (\<lambda>(u, v). edge_weight G u v) (combinations2 g))"

lemma in_nodes_iff: "n \<in> set (nodes G) \<longleftrightarrow> map_of (node G) n \<noteq> None"
  by (simp add: nodes_def map_of_eq_None_iff)

lemma node_sum_eq:
  "node_sum G g acc =
     (if set g \<subseteq> set (nodes G) then Inr (acc + sum_list (map (node_weight G) g)) else Inl KeyError)"
proof (induction g arbitrary: acc)
  case Nil
  show ?case by simp
next
  case (Cons n ns)
  show ?case
  proof (cases "map_of (node G) n")
    case None
    then show ?thesis by (simp add: nodes_getitem_def in_nodes_iff)
  next
    case (Some d)
    then have "node_weight G n = get_weight d" by (simp add: node_weight_def)
    with Some show ?thesis
      by (simp add: nodes_getitem_def in_nodes_iff Cons.IH add.assoc)
  qed
qed

lemma edge_step_eq: "edge_step G (u, v) acc = Inr (acc + edge_weight G u v)"
  by (simp add: edge_step_def has_edge_def edge_getitem_def edge_weight_def edge_attrs_def
      split: option.splits)

lemma edge_loop_eq:
  "for_loop (edge_step G) ps acc = Inr (acc + sum_list (map (\<lambda>(u, v). edge_weight G u v) ps))"
proof (induction ps arbitrary: acc)
  case Nil
  show ?case by simp
next
  case (Cons p ps)
  obtain u v where p: "p = (u, v)" by (cases p)
  show ?case by (simp add: p edge_step_eq Cons.IH add.assoc)
qed

lemma compute_group_score_eq:
  "compute_group_score G g =
     (if set g \<subseteq> set (nodes G) then Inr (score_value G g) else Inl KeyError)"
  by (simp add: compute_group_score_def node_sum_eq edge_loop_eq score_value_def)

section \<open>Scoring fails exactly on unknown nodes\<close>

text \<open>
  Claim C8. Scoring a group one of whose members is not a node of the graph raises (the
  \<^verbatim>\<open>KeyError\<close> of \<^verbatim>\<open>G.nodes[node]\<close>, the notebook's form of the unknown-node error), and
  scoring a group all of whose members are nodes of the graph returns a score.
\<close>

theorem score_fails_iff_unknown_node:
  "((\<exists>n\<in>set grp. n \<notin> set (nodes G)) \<longrightarrow> compute_group_score G grp = Inl KeyError) \<and>
   ((\<forall>n\<in>set grp. n \<in> set (nodes G)) \<longrightarrow> (\<exists>s. compute_group_score G grp = Inr s))"
  by (auto simp: compute_group_score_eq)

theorem score_fails_iff_unknown_node_witness:
  "compute_group_score scenario [''A'', ''Z''] = Inl KeyError \<and>
   (\<exists>s. compute_group_score scenario [''A'', ''B''] = Inr s)"
proof -
  have "\<exists>n\<in>set [''A'', ''Z'']. n \<notin> set (nodes scenario)"
    by (simp add: nodes_scenario)
  with score_fails_iff_unknown_node [of "[''A'', ''Z'']" scenario]
  have 1: "compute_group_score scenario [''A'', ''Z''] = Inl KeyError" by blast
  have "\<forall>n\<in>set [''A'', ''B'']. n \<in> set (nodes scenario)"
    by (simp add: nodes_scenario)
  with score_fails_iff_unknown_node [of "[''A'', ''B'']" scenario]
  have 2: "\<exists>s. compute_group_score scenario [''A'', ''B''] = Inr s" by blast
  from 1 2 show ?thesis by blast
qed

section \<open>Selection of the best group\<close>

lemma for_loop_append:
  "for_loop body (xs @ ys) s =
     (case for_loop body xs s of Inl e \<Rightarrow> Inl e | Inr s' \<Rightarrow> for_loop body ys s')"
  by (induction xs arbitrary: s) (auto split: sum.splits)

lemma max_loop_from_best:
  assumes "\<forall>g\<in>set (b # gs). compute_group_score G g = Inr (s g)"
  shows "\<exists>pre r post. b # gs = pre @ r # post \<and>
           for_loop (max_step G) gs (Some b, Some (s b)) = Inr (Some r, Some (s r)) \<and>
           (\<forall>x\<in>set pre. s x < s r) \<and> (\<forall>x\<in>set post. s x \<le> s r)"
  using assms
proof (induction gs rule: rev_induct)
  case Nil
  have "b # [] = [] @ b # []" by simp
  then show ?case by fastforce
next
  case (snoc g gs)
  from snoc.prems have sc: "\<forall>x\<in>set (b # gs). compute_group_score G x = Inr (s x)"
    and sg: "compute_group_score G g = Inr (s g)" by simp_all
  from snoc.IH [OF sc] obtain pre r post where
    dec: "b # gs = pre @ r # post" and
    run: "for_loop (max_step G) gs (Some b, Some (s b)) = Inr (Some r, Some (s r))" and
    lt: "\<forall>x\<in>set pre. s x < s r" and le: "\<forall>x\<in>set post. s x \<le> s r"
    by blast
  show ?case
  proof (cases "s g > s r")
    case True
    have run': "for_loop (max_step G) (gs @ [g]) (Some b, Some (s b)) = Inr (Some g, Some (s g))"
      using True by (simp add: for_loop_append run max_step_def sg)
    have d: "b # gs @ [g] = (pre @ r # post) @ g # []" using dec by simp
    have "\<forall>x\<in>set (pre @ r # post). s x < s g" using lt le True by auto
    with d run' show ?thesis by (metis empty_iff empty_set)
  next
    case False
    have run': "for_loop (max_step G) (gs @ [g]) (Some b, Some (s b)) = Inr (Some r, Some (s r))"
      using False by (simp add: for_loop_append run max_step_def sg)
    have d: "b # gs @ [g] = pre @ r # (post @ [g])" using dec by simp
    have "\<forall>x\<in>set (post @ [g]). s x \<le> s r" using le False by auto
    with d run' lt show ?thesis by blast
  qed
qed

lemma find_max_group_Cons:
  assumes "compute_group_score G b = Inr v"
  shows "find_max_group G (b # gs) = for_loop (max_step G) gs (Some b, Some v)"
  using assms by (simp add: find_max_group_def max_step_def)

text \<open>
  Claim C3. When every candidate can be scored (its members are nodes of the graph, the
  precondition of scoring), \<^const>\<open>find_max_group\<close> returns a candidate of maximal score
  together with that score, and it is the first such candidate of the sequence: every
  candidate before it scores strictly less, every candidate after it scores at most as
  much. Here \<open>s\<close> is the score \<^const>\<open>compute_group_score\<close> returns.
\<close>

theorem find_max_group_first_maximum:
  assumes "\<forall>g\<in>set groups. compute_group_score G g = Inr (s g)" and "groups \<noteq> []"
  shows "\<exists>pre best post. groups = pre @ best # post \<and>
           find_max_group G groups = Inr (Some best, Some (s best)) \<and>
           (\<forall>g\<in>set pre. s g < s best) \<and> (\<forall>g\<in>set post. s g \<le> s best)"
proof -
  from assms(2) obtain b gs where g: "groups = b # gs" by (cases groups) auto
  with assms(1) have b: "compute_group_score G b = Inr (s b)" by simp
  from max_loop_from_best [of b gs G s] assms(1) g find_max_group_Cons [OF b, of gs]
  show ?thesis by simp
qed

lemma compute_group_score_scenario:
  "compute_group_score scenario [''A'', ''B'', ''C''] = Inr 11"
  "compute_group_score scenario [''C'', ''D'', ''E''] = Inr 6"
  by (simp_all add: scenario_eq compute_group_score_def edge_step_def has_edge_def
      edge_getitem_def nodes_getitem_def get_weight_def)

lemma compute_group_score_scenario2:
  "compute_group_score scenario [''B'', ''A'', ''C''] = Inr 11"
  by (simp add: scenario_eq compute_group_score_def edge_step_def has_edge_def
      edge_getitem_def nodes_getitem_def get_weight_def)

theorem find_max_group_first_maximum_witness:
  "find_max_group scenario [[''C'', ''D'', ''E''], [''A'', ''B'', ''C''], [''B'', ''A'', ''C'']]
     = Inr (Some [''A'', ''B'', ''C''], Some 11) \<and>
   (\<exists>pre post. [[''C'', ''D'', ''E''], [''A'', ''B'', ''C''], [''B'', ''A'', ''C'']]
        = pre @ [''A'', ''B'', ''C''] # post \<and>
      list_all (\<lambda>g. score_value scenario g < 11) pre \<and>
      list_all (\<lambda>g. score_value scenario g \<le> 11) post)"
proof -
  let ?gs = "[[''C'', ''D'', ''E''], [''A'', ''B'', ''C''], [''B'', ''A'', ''C'']]"
  let ?s = "score_value scenario"
  have h: "\<forall>g\<in>set ?gs. compute_group_score scenario g = Inr (?s g)"
    by (simp add: compute_group_score_eq nodes_scenario)
  from find_max_group_first_maximum [OF h] obtain pre best post where
    d: "?gs = pre @ best # post" and
    r: "find_max_group scenario ?gs = Inr (Some best, Some (?s best))" and
    lt: "\<forall>g\<in>set pre. ?s g < ?s best" and le: "\<forall>g\<in>set post. ?s g \<le> ?s best"
    by blast
  have e: "find_max_group scenario ?gs = Inr (Some [''A'', ''B'', ''C''], Some 11)"
    by (simp add: find_max_group_def max_step_def compute_group_score_scenario
        compute_group_score_scenario2)
  from r e have b: "best = [''A'', ''B'', ''C'']" and v: "?s best = 11" by simp_all
  from lt le v have "list_all (\<lambda>g. ?s g < 11) pre" "list_all (\<lambda>g. ?s g \<le> 11) post"
    by (simp_all add: list_all_iff)
  with d b e show ?thesis by blast
qed

text \<open>
  Claim C10. On the empty sequence \<^const>\<open>find_max_group\<close> returns the pair
  \<^verbatim>\<open>(None, None)\<close> and raises nothing. On a non-empty sequence of groups over the graph
  it returns a pair \<^verbatim>\<open>(g, s)\<close> where \<open>g\<close> is an element of the sequence, as it stands
  there, and \<open>s\<close> is the score \<^const>\<open>compute_group_score\<close> returns for \<open>g\<close>.
\<close>

theorem find_max_group_returns_member:
  "find_max_group G [] = Inr (None, None) \<and>
   (groups \<noteq> [] \<and> (\<forall>g\<in>set groups. set g \<subseteq> set (nodes G)) \<longrightarrow>
      (\<exists>g s. find_max_group G groups = Inr (Some g, Some s) \<and> g \<in> set groups \<and>
         compute_group_score G g = Inr s))"
proof (intro conjI impI)
  show "find_max_group G [] = Inr (None, None)" by (simp add: find_max_group_def)
next
  assume a: "groups \<noteq> [] \<and> (\<forall>g\<in>set groups. set g \<subseteq> set (nodes G))"
  then obtain b gs where g: "groups = b # gs" by (cases groups) auto
  from a have sc: "\<forall>g\<in>set (b # gs). compute_group_score G g = Inr (score_value G g)"
    by (simp add: compute_group_score_eq g)
  then have b: "compute_group_score G b = Inr (score_value G b)" by simp
  from max_loop_from_best [OF sc] obtain pre r post where
    d: "b # gs = pre @ r # post" and
    run: "for_loop (max_step G) gs (Some b, Some (score_value G b)) = Inr (Some r, Some (score_value G r))"
    by blast
  from d have "r \<in> set (b # gs)" by (metis in_set_conv_decomp)
  with sc run g find_max_group_Cons [OF b, of gs]
  show "\<exists>g s. find_max_group G groups = Inr (Some g, Some s) \<and> g \<in> set groups \<and>
         compute_group_score G g = Inr s"
    by auto
qed

theorem find_max_group_returns_member_witness:
  "find_max_group scenario [] = Inr (None, None) \<and>
   (\<exists>g s. find_max_group scenario [[''C'', ''D'', ''E''], [''A'', ''B'', ''C'']] = Inr (Some g, Some s) \<and>
      g \<in> set [[''C'', ''D'', ''E''], [''A'', ''B'', ''C'']] \<and> compute_group_score scenario g = Inr s)"
proof -
  have "[[''C'', ''D'', ''E''], [''A'', ''B'', ''C'']] \<noteq> [] \<and>
     (\<forall>g\<in>set [[''C'', ''D'', ''E''], [''A'', ''B'', ''C'']]. set g \<subseteq> set (nodes scenario))"
    by (simp add: nodes_scenario)
  with find_max_group_returns_member [of scenario "[[''C'', ''D'', ''E''], [''A'', ''B'', ''C'']]"]
  show ?thesis by blast
qed

section \<open>The score as a sum over members and unordered pairs\<close>

text \<open>An undirected graph stores every edge at both of its endpoints, with the same
  attributes.\<close>

definition undirected :: "'n graph \<Rightarrow> bool" where
  "undirected G \<longleftrightarrow>
     (\<forall>u\<in>set (nodes G). \<forall>v\<in>set (nodes G). edge_attrs G u v = edge_attrs G v u)"

text \<open>The unordered pairs of distinct members of a set, each named once, smaller member
  first.\<close>

definition unordered_pairs :: "'n::linorder set \<Rightarrow> ('n \<times> 'n) set" where
  "unordered_pairs S = Set.filter (\<lambda>(u, v). u < v) (S \<times> S)"

text \<open>The score in the words of the specification: the node weights of the members,
  plus the edge weight of every unordered pair of members that has an edge; a pair
  without an edge adds nothing.\<close>

definition group_score :: "'n::linorder graph \<Rightarrow> 'n set \<Rightarrow> int" where
  "group_score G S =
     (\<Sum>n\<in>S. node_weight G n)
     + (\<Sum>(u, v)\<in>unordered_pairs S. if has_edge G u v then edge_weight G u v else 0)"

lemma edge_weight_no_edge: "\<not> has_edge G u v \<Longrightarrow> edge_weight G u v = 0"
  by (simp add: has_edge_def edge_weight_def edge_attrs_def split: option.splits)

lemma unordered_pairs_iff: "(u, v) \<in> unordered_pairs S \<longleftrightarrow> u \<in> S \<and> v \<in> S \<and> u < v"
  by (auto simp: unordered_pairs_def)

lemma unordered_pairs_insert:
  "unordered_pairs (insert x S) =
     Pair x ` {v \<in> S. x < v} \<union> (\<lambda>u. (u, x)) ` {u \<in> S. u < x} \<union> unordered_pairs S"
  by (auto simp: unordered_pairs_iff)

lemma finite_unordered_pairs: "finite S \<Longrightarrow> finite (unordered_pairs S)"
  by (simp add: unordered_pairs_def)

lemma sum_combinations2:
  fixes f :: "'n::linorder \<Rightarrow> 'n \<Rightarrow> int"
  assumes "distinct xs" and "\<forall>u\<in>set xs. \<forall>v\<in>set xs. f u v = f v u"
  shows "sum_list (map (\<lambda>(u, v). f u v) (combinations2 xs))
           = (\<Sum>(u, v)\<in>unordered_pairs (set xs). f u v)"
  using assms
proof (induction xs)
  case Nil
  show ?case by (simp add: unordered_pairs_def)
next
  case (Cons x xs)
  let ?S = "set xs"
  let ?A = "Pair x ` {v \<in> ?S. x < v}"
  let ?B = "(\<lambda>u. (u, x)) ` {u \<in> ?S. u < x}"
  let ?g = "\<lambda>(u, v). f u v"
  from Cons.prems(1) have x: "x \<notin> ?S" and d: "distinct xs" by simp_all
  from Cons.prems(2) have sym: "\<forall>u\<in>?S. \<forall>v\<in>?S. f u v = f v u"
    by (meson list.set_intros(2))
  from Cons.prems(2) have symx: "\<forall>u\<in>?S. f x u = f u x"
    by (meson list.set_intros)
  have IH: "sum_list (map ?g (combinations2 xs)) = sum ?g (unordered_pairs ?S)"
    by (rule Cons.IH [OF d sym])
  have row: "sum_list (map ?g (map (Pair x) xs)) = sum (f x) ?S"
    using d by (simp add: sum_list_distinct_conv_sum_set comp_def)
  have split: "?S = {v \<in> ?S. x < v} \<union> {u \<in> ?S. u < x}"
    using x by (auto simp: not_less_iff_gr_or_eq)
  have "sum (f x) ?S = sum (f x) {v \<in> ?S. x < v} + sum (f x) {u \<in> ?S. u < x}"
    by (subst split, rule sum.union_disjoint) auto
  also have "sum (f x) {v \<in> ?S. x < v} = sum ?g ?A"
    by (simp add: sum.reindex inj_on_def)
  also have "sum (f x) {u \<in> ?S. u < x} = sum (\<lambda>u. f u x) {u \<in> ?S. u < x}"
  proof (rule sum.cong)
    fix u assume "u \<in> {u \<in> ?S. u < x}"
    then have "u \<in> ?S" by simp
    with symx show "f x u = f u x" by blast
  qed (rule refl)
  also have "\<dots> = sum ?g ?B"
    by (simp add: sum.reindex inj_on_def)
  finally have row': "sum (f x) ?S = sum ?g ?A + sum ?g ?B" .
  have AB: "sum ?g (?A \<union> ?B) = sum ?g ?A + sum ?g ?B"
    by (rule sum.union_disjoint) auto
  have ABS: "sum ?g ((?A \<union> ?B) \<union> unordered_pairs ?S) = sum ?g (?A \<union> ?B) + sum ?g (unordered_pairs ?S)"
    using x by (intro sum.union_disjoint) (auto simp: finite_unordered_pairs unordered_pairs_iff)
  have "sum_list (map ?g (combinations2 (x # xs))) = sum (f x) ?S + sum ?g (unordered_pairs ?S)"
    using row IH by simp
  also have "\<dots> = sum ?g (unordered_pairs (set (x # xs)))"
    by (simp add: unordered_pairs_insert ABS AB row')
  finally show ?case .
qed

lemma score_value_group_score:
  assumes "undirected G" and "distinct grp" and "set grp \<subseteq> set (nodes G)"
  shows "score_value G grp = group_score G (set grp)"
proof -
  have sym: "\<forall>u\<in>set grp. \<forall>v\<in>set grp. edge_weight G u v = edge_weight G v u"
  proof (intro ballI)
    fix u v assume "u \<in> set grp" "v \<in> set grp"
    with assms(3) have "u \<in> set (nodes G)" "v \<in> set (nodes G)" by auto
    with assms(1) have "edge_attrs G u v = edge_attrs G v u" unfolding undirected_def by blast
    then show "edge_weight G u v = edge_weight G v u" by (simp only: edge_weight_def)
  qed
  have e: "(\<lambda>(u, v). if has_edge G u v then edge_weight G u v else 0) = (\<lambda>(u, v). edge_weight G u v)"
    by (auto simp: fun_eq_iff edge_weight_no_edge)
  show ?thesis
    unfolding score_value_def group_score_def e
    by (simp add: sum_combinations2 [OF assms(2) sym] sum_list_distinct_conv_sum_set assms(2))
qed

lemma find_max_group_scenario:
  "find_max_group scenario [[''A'', ''B'', ''C''], [''C'', ''D'', ''E'']]
     = Inr (Some [''A'', ''B'', ''C''], Some 11)"
  "find_max_group scenario [[''C'', ''D'', ''E''], [''A'', ''B'', ''C'']]
     = Inr (Some [''A'', ''B'', ''C''], Some 11)"
  by (simp_all add: find_max_group_def max_step_def compute_group_score_scenario)

lemma undirected_scenario: "undirected scenario"
  by (simp add: undirected_def nodes_scenario) (simp add: scenario_eq edge_attrs_def)

text \<open>
  Claim C1. For every undirected graph and every group of distinct nodes present in it,
  the score is the sum of the members' node weights plus the sum of the edge weights
  over the unordered pairs of members that have an edge. In the five-node graph of the
  worked example the group A, B, C scores 11, the group C, D, E scores 6, and the
  selection over these two candidates returns A, B, C with score 11, in whichever order
  the two are given.
\<close>

theorem compute_group_score_formula:
  "(\<forall>(G :: 'n::linorder graph) grp.
      undirected G \<and> distinct grp \<and> set grp \<subseteq> set (nodes G) \<longrightarrow>
      compute_group_score G grp = Inr (group_score G (set grp))) \<and>
   compute_group_score scenario [''A'', ''B'', ''C''] = Inr 11 \<and>
   compute_group_score scenario [''C'', ''D'', ''E''] = Inr 6 \<and>
   find_max_group scenario [[''A'', ''B'', ''C''], [''C'', ''D'', ''E'']]
     = Inr (Some [''A'', ''B'', ''C''], Some 11) \<and>
   find_max_group scenario [[''C'', ''D'', ''E''], [''A'', ''B'', ''C'']]
     = Inr (Some [''A'', ''B'', ''C''], Some 11)"
proof (intro conjI allI impI)
  fix G :: "'n graph" and grp
  assume "undirected G \<and> distinct grp \<and> set grp \<subseteq> set (nodes G)"
  then show "compute_group_score G grp = Inr (group_score G (set grp))"
    by (simp add: compute_group_score_eq score_value_group_score)
qed (simp_all only: compute_group_score_scenario find_max_group_scenario)

theorem compute_group_score_formula_witness:
  "undirected scenario \<and> distinct [''C'', ''A'', ''B''] \<and>
   set [''C'', ''A'', ''B''] \<subseteq> set (nodes scenario) \<and>
   compute_group_score scenario [''C'', ''A'', ''B'']
     = Inr (group_score scenario {''A'', ''B'', ''C''}) \<and>
   group_score scenario {''A'', ''B'', ''C''} = 11"
proof -
  have h: "undirected scenario \<and> distinct [''C'', ''A'', ''B''] \<and>
      set [''C'', ''A'', ''B''] \<subseteq> set (nodes scenario)"
    by (simp add: undirected_scenario nodes_scenario)
  have 1: "compute_group_score scenario [''C'', ''A'', ''B'']
      = Inr (group_score scenario (set [''C'', ''A'', ''B'']))"
    by (rule compute_group_score_formula [THEN conjunct1, rule_format, OF h])
  have s: "set [''C'', ''A'', ''B''] = {''A'', ''B'', ''C''}" by auto
  have 2: "compute_group_score scenario [''C'', ''A'', ''B''] = Inr 11"
    by (simp add: scenario_eq compute_group_score_def edge_step_def has_edge_def
      edge_getitem_def nodes_getitem_def get_weight_def)
  from 1 2 s have 3: "group_score scenario {''A'', ''B'', ''C''} = 11" by simp
  from 1 3 s h show ?thesis by simp
qed

section \<open>Enumeration of the simple paths\<close>

lemma for_loop_cong [fundef_cong]:
  assumes "xs = ys" and "s = t" and "\<And>x s'. x \<in> set ys \<Longrightarrow> f x s' = g x s'"
  shows "for_loop f xs s = for_loop g ys t"
  unfolding assms(1,2) using assms(3)
  by (induction ys arbitrary: t) (auto split: sum.splits)

text \<open>The state the nested \<^verbatim>\<open>dfs\<close> shares with \<^verbatim>\<open>precompute_unique_paths\<close>: the set
  \<^verbatim>\<open>unique_paths\<close> of sorted tuples and the list \<^verbatim>\<open>all_paths\<close>.\<close>

type_synonym 'n path_state = "'n list set \<times> 'n list list"

text \<open>Every node that occurs as a neighbour; the paths of the search draw their later
  nodes from this finite set.\<close>

definition neighbour_nodes :: "'n graph \<Rightarrow> 'n set" where
  "neighbour_nodes G = (\<Union>(u, nbrs)\<in>set (adj G). fst ` set nbrs)"

text \<open>\<^verbatim>\<open>dfs(current, path)\<close>. The Python list \<^verbatim>\<open>path\<close> is extended before the recursive
  call and restored after it; the model passes the extended list. A path is recorded
  as it stands (\<^verbatim>\<open>path.copy()\<close>) when its sorted tuple is new.\<close>

function dfs ::
  "'n::linorder graph \<Rightarrow> int \<Rightarrow> 'n \<Rightarrow> 'n list \<Rightarrow> 'n path_state \<Rightarrow> error + 'n path_state" where
  "dfs G desired_length current path st =
     (if int (length path) = desired_length then
        (let sorted_path = sort path in
         if sorted_path \<notin> fst st
         then Inr (insert sorted_path (fst st), snd st @ [path])
         else Inr st)
      else
        (case neighbors G current of
           Inl e \<Rightarrow> Inl e
         | Inr nbrs \<Rightarrow>
             for_loop
               (\<lambda>neighbor st'.
                  if neighbor \<notin> set path
                  then dfs G desired_length neighbor (path @ [neighbor]) st'
                  else Inr st')
               nbrs st))"
  by pat_completeness auto

lemma neighbors_in_neighbour_nodes:
  assumes "neighbors G current = Inr nbrs" and "n \<in> set nbrs"
  shows "n \<in> neighbour_nodes G"
proof -
  from assms(1) obtain al where al: "map_of (adj G) current = Some al" and nb: "nbrs = map fst al"
    by (auto simp: neighbors_def split: option.splits)
  from al have "(current, al) \<in> set (adj G)" by (rule map_of_SomeD)
  with assms(2) nb show ?thesis by (force simp: neighbour_nodes_def)
qed

lemma finite_neighbour_nodes: "finite (neighbour_nodes G)"
  by (auto simp: neighbour_nodes_def)

termination dfs
proof (relation "measure (\<lambda>(G, k, current, path, st). card (neighbour_nodes G - set path))")
  show "wf (measure (\<lambda>(G, k, current, path, st). card (neighbour_nodes G - set path)))"
    by simp
next
  fix G :: "'n graph" and desired_length :: int and current path and st :: "'n path_state"
    and nbrs neighbor and st' :: "'n path_state"
  assume nb: "neighbors G current = Inr nbrs" and mem: "neighbor \<in> set nbrs"
    and new: "neighbor \<notin> set path"
  from nb mem have "neighbor \<in> neighbour_nodes G" by (rule neighbors_in_neighbour_nodes)
  with new have "neighbour_nodes G - set (path @ [neighbor]) \<subset> neighbour_nodes G - set path"
    by auto
  then have "card (neighbour_nodes G - set (path @ [neighbor])) < card (neighbour_nodes G - set path)"
    by (intro psubset_card_mono) (simp_all add: finite_neighbour_nodes)
  then show "((G, desired_length, neighbor, path @ [neighbor], st'), (G, desired_length, current, path, st))
      \<in> measure (\<lambda>(G, k, current, path, st). card (neighbour_nodes G - set path))"
    by simp
qed

declare dfs.simps [simp del]

text \<open>\<^verbatim>\<open>precompute_unique_paths(G, desired_length)\<close>: the search starts from every node,
  with \<^verbatim>\<open>all_paths\<close> and \<^verbatim>\<open>unique_paths\<close> empty, and returns \<^verbatim>\<open>all_paths\<close>.\<close>

definition precompute_unique_paths :: "'n::linorder graph \<Rightarrow> int \<Rightarrow> error + 'n list list" where
  "precompute_unique_paths G desired_length =
     (case for_loop (\<lambda>node st. dfs G desired_length node [node] st) (nodes G) ({}, []) of
        Inl e \<Rightarrow> Inl e
      | Inr st \<Rightarrow> Inr (snd st))"

section \<open>What the enumeration returns\<close>

text \<open>The invariant of \<^verbatim>\<open>nx.Graph\<close>: the keys of a dictionary are distinct, the two
  dictionaries have the same keys, every neighbour is a node, and every edge is stored
  at both endpoints.\<close>

definition graph_inv :: "'n graph \<Rightarrow> bool" where
  "graph_inv G \<longleftrightarrow>
     distinct (map fst (node G)) \<and> distinct (map fst (adj G)) \<and>
     set (map fst (adj G)) = set (map fst (node G)) \<and>
     (\<forall>(u, nbrs)\<in>set (adj G). distinct (map fst nbrs) \<and> fst ` set nbrs \<subseteq> set (nodes G)) \<and>
     undirected G"

text \<open>A simple path of \<open>k\<close> nodes: it starts at a node of the graph, repeats no node,
  and each node is followed by one of its neighbours.\<close>

definition simple_path :: "'n graph \<Rightarrow> int \<Rightarrow> 'n list \<Rightarrow> bool" where
  "simple_path G k p \<longleftrightarrow>
     p \<noteq> [] \<and> hd p \<in> set (nodes G) \<and> distinct p \<and> successively (has_edge G) p \<and>
     int (length p) = k"

text \<open>The paths of \<open>k\<close> nodes that continue \<open>path\<close>: the added nodes are new, distinct
  and each a neighbour of the node before it.\<close>

definition continuations :: "'n graph \<Rightarrow> int \<Rightarrow> 'n list \<Rightarrow> 'n list set" where
  "continuations G k path =
     {path @ r | r. distinct r \<and> set r \<inter> set path = {} \<and>
        successively (has_edge G) (last path # r) \<and> int (length (path @ r)) = k}"

text \<open>What a part of the search does to the state when the paths it reaches are \<open>E\<close>:
  it appends paths of \<open>E\<close>, one for each sorted tuple of \<open>E\<close> that was not yet known, and
  afterwards every sorted tuple of \<open>E\<close> is known.\<close>

definition records :: "'n::linorder list set \<Rightarrow> 'n path_state \<Rightarrow> 'n path_state \<Rightarrow> bool" where
  "records E st st' \<longleftrightarrow>
     (\<exists>new. snd st' = snd st @ new \<and> set new \<subseteq> E \<and> fst st' = fst st \<union> sort ` E \<and>
        sort ` set new = sort ` E - fst st \<and> distinct (map sort new))"

lemma records_empty: "records {} st st"
  by (simp add: records_def)

lemma recordsI:
  assumes "snd st' = snd st @ new" and "set new \<subseteq> E" and "fst st' = fst st \<union> sort ` E"
    and "sort ` set new = sort ` E - fst st" and "distinct (map sort new)"
  shows "records E st st'"
  unfolding records_def using assms by blast

lemma records_single:
  "records {p} st (if sort p \<notin> fst st then (insert (sort p) (fst st), snd st @ [p]) else st)"
proof (cases "sort p \<in> fst st")
  case True
  have "records {p} st st"
    by (rule recordsI [where new = "[]"]) (use True in auto)
  with True show ?thesis by simp
next
  case False
  have "records {p} st (insert (sort p) (fst st), snd st @ [p])"
    by (rule recordsI [where new = "[p]"]) (use False in auto)
  with False show ?thesis by simp
qed

lemma records_trans:
  assumes "records E1 st st1" and "records E2 st1 st2"
  shows "records (E1 \<union> E2) st st2"
proof -
  from assms(1) obtain n1 where 1: "snd st1 = snd st @ n1" "set n1 \<subseteq> E1"
    "fst st1 = fst st \<union> sort ` E1" "sort ` set n1 = sort ` E1 - fst st" "distinct (map sort n1)"
    unfolding records_def by blast
  from assms(2) obtain n2 where 2: "snd st2 = snd st1 @ n2" "set n2 \<subseteq> E2"
    "fst st2 = fst st1 \<union> sort ` E2" "sort ` set n2 = sort ` E2 - fst st1" "distinct (map sort n2)"
    unfolding records_def by blast
  have a: "snd st2 = snd st @ (n1 @ n2)" using 1(1) 2(1) by simp
  have b: "set (n1 @ n2) \<subseteq> E1 \<union> E2" using 1(2) 2(2) by auto
  have c: "fst st2 = fst st \<union> sort ` (E1 \<union> E2)" using 1(3) 2(3) by auto
  have d: "sort ` set (n1 @ n2) = sort ` (E1 \<union> E2) - fst st"
    using 1(3,4) 2(4) by (simp add: image_Un) blast
  have "sort ` set n1 \<inter> sort ` set n2 = {}" using 1(3,4) 2(4) by blast
  then have e: "distinct (map sort (n1 @ n2))" using 1(5) 2(5) by simp
  from a b c d e show ?thesis by (rule recordsI)
qed

lemma for_loop_records:
  assumes "\<And>x s. x \<in> set xs \<Longrightarrow> \<exists>s'. body x s = Inr s' \<and> records (E x) s s'"
  shows "\<exists>s'. for_loop body xs s = Inr s' \<and> records (\<Union>x\<in>set xs. E x) s s'"
  using assms
proof (induction xs arbitrary: s)
  case Nil
  show ?case by (simp add: records_empty)
next
  case (Cons x xs)
  from Cons.prems [of x s] obtain s1 where 1: "body x s = Inr s1" "records (E x) s s1"
    by auto
  from Cons.IH [of s1] Cons.prems obtain s2 where
    2: "for_loop body xs s1 = Inr s2" "records (\<Union>x\<in>set xs. E x) s1 s2"
    by (metis list.set_intros(2))
  from records_trans [OF 1(2) 2(2)] have "records (\<Union>x\<in>set (x # xs). E x) s s2" by simp
  with 1(1) 2(1) show ?case by simp
qed


lemma neighbors_has_edge:
  assumes "neighbors G c = Inr nbrs"
  shows "v \<in> set nbrs \<longleftrightarrow> has_edge G c v"
proof -
  from assms obtain al where al: "map_of (adj G) c = Some al" and nb: "nbrs = map fst al"
    by (auto simp: neighbors_def split: option.splits)
  show ?thesis by (simp add: has_edge_def al nb map_of_eq_None_iff)
qed

lemma graph_inv_neighbors:
  assumes "graph_inv G" and "c \<in> set (nodes G)"
  shows "\<exists>nbrs. neighbors G c = Inr nbrs \<and> set nbrs \<subseteq> set (nodes G)"
proof -
  from assms have "c \<in> fst ` set (adj G)" by (simp add: graph_inv_def nodes_def)
  then obtain al where al: "map_of (adj G) c = Some al"
    by (metis map_of_eq_None_iff not_None_eq)
  then have "(c, al) \<in> set (adj G)" by (rule map_of_SomeD)
  with assms(1) have "fst ` set al \<subseteq> set (nodes G)" unfolding graph_inv_def by blast
  with al show ?thesis by (simp add: neighbors_def)
qed

lemma has_edge_in_nodes:
  assumes "graph_inv G" and "has_edge G u v"
  shows "v \<in> set (nodes G)"
proof -
  from assms(2) obtain al where al: "map_of (adj G) u = Some al" and v: "map_of al v \<noteq> None"
    by (auto simp: has_edge_def split: option.splits)
  from al have "(u, al) \<in> set (adj G)" by (rule map_of_SomeD)
  with assms(1) have "fst ` set al \<subseteq> set (nodes G)" unfolding graph_inv_def by blast
  moreover from v have "v \<in> fst ` set al" by (simp add: map_of_eq_None_iff)
  ultimately show ?thesis by blast
qed

lemma continuations_full:
  assumes "int (length path) = k"
  shows "continuations G k path = {path}"
proof -
  have "\<And>r. int (length (path @ r)) = k \<longleftrightarrow> r = []" using assms by auto
  then show ?thesis by (auto simp: continuations_def)
qed

lemma continuations_step:
  assumes "int (length path) \<noteq> k" and "path \<noteq> []"
  shows "continuations G k path =
           (\<Union>n\<in>{n. has_edge G (last path) n \<and> n \<notin> set path}. continuations G k (path @ [n]))"
proof (intro set_eqI iffI)
  fix q
  assume "q \<in> continuations G k path"
  then obtain r where q: "q = path @ r" and d: "distinct r" and dj: "set r \<inter> set path = {}"
    and su: "successively (has_edge G) (last path # r)" and len: "int (length (path @ r)) = k"
    unfolding continuations_def by blast
  from len assms(1) obtain n r' where r: "r = n # r'" by (cases r) auto
  have 1: "has_edge G (last path) n" and 2: "successively (has_edge G) (n # r')"
    using su r by simp_all
  have 3: "n \<notin> set path" using dj r by auto
  have 4: "distinct r'" "set r' \<inter> set (path @ [n]) = {}" using d dj r by auto
  have 5: "q = (path @ [n]) @ r'" "int (length ((path @ [n]) @ r')) = k" using q r len by simp_all
  have "q \<in> continuations G k (path @ [n])"
    unfolding continuations_def using 2 4 5 by (simp del: append_assoc)
  with 1 3 show "q \<in> (\<Union>n\<in>{n. has_edge G (last path) n \<and> n \<notin> set path}. continuations G k (path @ [n]))"
    by blast
next
  fix q
  assume "q \<in> (\<Union>n\<in>{n. has_edge G (last path) n \<and> n \<notin> set path}. continuations G k (path @ [n]))"
  then obtain n r' where 1: "has_edge G (last path) n" and 3: "n \<notin> set path"
    and q: "q = (path @ [n]) @ r'" and d: "distinct r'" and dj: "set r' \<inter> set (path @ [n]) = {}"
    and su: "successively (has_edge G) (last (path @ [n]) # r')"
    and len: "int (length ((path @ [n]) @ r')) = k"
    unfolding continuations_def by blast
  have a: "q = path @ (n # r')" using q by simp
  have b: "distinct (n # r')" using d dj by auto
  have c: "set (n # r') \<inter> set path = {}" using dj 3 by auto
  have e: "successively (has_edge G) (last path # n # r')" using su 1 by simp
  have f: "int (length (path @ (n # r'))) = k" using len by simp
  from a b c e f show "q \<in> continuations G k path" unfolding continuations_def by blast
qed

lemma dfs_records:
  assumes "graph_inv G" and "current \<in> set (nodes G)" and "path \<noteq> []" and "last path = current"
  shows "\<exists>st'. dfs G k current path st = Inr st' \<and> records (continuations G k path) st st'"
  using assms
proof (induction G k current path st rule: dfs.induct)
  case (1 G k current path st)
  show ?case
  proof (cases "int (length path) = k")
    case True
    then have "dfs G k current path st
        = Inr (if sort path \<notin> fst st then (insert (sort path) (fst st), snd st @ [path]) else st)"
      by (subst dfs.simps) (simp add: Let_def)
    with records_single [of path st] continuations_full [OF True, of G] show ?thesis by simp
  next
    case False
    from graph_inv_neighbors [OF "1.prems"(1,2)] obtain nbrs where
      nb: "neighbors G current = Inr nbrs" and sub: "set nbrs \<subseteq> set (nodes G)" by blast
    let ?body = "\<lambda>neighbor st'. if neighbor \<notin> set path
        then dfs G k neighbor (path @ [neighbor]) st' else Inr st'"
    let ?E = "\<lambda>n. if n \<notin> set path then continuations G k (path @ [n]) else {}"
    have run: "dfs G k current path st = for_loop ?body nbrs st"
      using False nb by (subst dfs.simps) simp
    have step: "\<exists>s'. ?body x s = Inr s' \<and> records (?E x) s s'" if x: "x \<in> set nbrs" for x s
    proof (cases "x \<in> set path")
      case True
      then show ?thesis by (simp add: records_empty)
    next
      case new: False
      from sub x have "x \<in> set (nodes G)" by blast
      with "1.IH" [OF False nb x new "1.prems"(1)] new show ?thesis by simp
    qed
    from for_loop_records [of nbrs ?body ?E st, OF step] obtain s' where
      r: "for_loop ?body nbrs st = Inr s'" and rec: "records (\<Union>x\<in>set nbrs. ?E x) st s'"
      by blast
    have "(\<Union>x\<in>set nbrs. ?E x)
        = (\<Union>n\<in>{n. has_edge G (last path) n \<and> n \<notin> set path}. continuations G k (path @ [n]))"
      using neighbors_has_edge [OF nb] "1.prems"(4) by auto
    also have "\<dots> = continuations G k path"
      by (rule continuations_step [OF False "1.prems"(3), symmetric])
    finally show ?thesis using r rec run by simp
  qed
qed

lemma continuations_start:
  "(\<Union>n\<in>set (nodes G). continuations G k [n]) = {p. simple_path G k p}"
proof (intro set_eqI iffI)
  fix p
  assume "p \<in> (\<Union>n\<in>set (nodes G). continuations G k [n])"
  then obtain n r where n: "n \<in> set (nodes G)" and p: "p = [n] @ r" and "distinct r"
    and "set r \<inter> set [n] = {}" and "successively (has_edge G) (last [n] # r)"
    and "int (length ([n] @ r)) = k"
    unfolding continuations_def by blast
  then have "simple_path G k (n # r)" by (auto simp: simple_path_def)
  with p show "p \<in> {p. simple_path G k p}" by simp
next
  fix p
  assume "p \<in> {p. simple_path G k p}"
  then have sp: "simple_path G k p" by simp
  then obtain n r where p: "p = n # r" by (cases p) (auto simp: simple_path_def)
  from sp p have n: "n \<in> set (nodes G)" and 1: "distinct r" "set r \<inter> set [n] = {}"
    "successively (has_edge G) (last [n] # r)" "int (length ([n] @ r)) = k"
    by (auto simp: simple_path_def)
  have "p = [n] @ r" using p by simp
  with 1 have "p \<in> continuations G k [n]" unfolding continuations_def by blast
  with n show "p \<in> (\<Union>n\<in>set (nodes G). continuations G k [n])" by blast
qed

lemma precompute_records:
  assumes "graph_inv G"
  shows "\<exists>lib. precompute_unique_paths G k = Inr lib \<and> set lib \<subseteq> {p. simple_path G k p} \<and>
           sort ` set lib = sort ` {p. simple_path G k p} \<and> distinct (map sort lib)"
proof -
  let ?body = "\<lambda>node st. dfs G k node [node] st"
  have step: "\<exists>s'. ?body x s = Inr s' \<and> records (continuations G k [x]) s s'"
    if "x \<in> set (nodes G)" for x s
    using dfs_records [OF assms that, of "[x]" k s] by simp
  from for_loop_records [of "nodes G" ?body "\<lambda>n. continuations G k [n]" "({}, [])", OF step]
  obtain s' where r: "for_loop ?body (nodes G) ({}, []) = Inr s'"
    and rec: "records (\<Union>n\<in>set (nodes G). continuations G k [n]) ({}, []) s'"
    by blast
  from rec have "records {p. simple_path G k p} ({}, []) s'"
    by (simp only: continuations_start)
  then have "set (snd s') \<subseteq> {p. simple_path G k p} \<and>
      sort ` set (snd s') = sort ` {p. simple_path G k p} \<and> distinct (map sort (snd s'))"
    unfolding records_def by auto
  with r show ?thesis by (simp add: precompute_unique_paths_def)
qed

lemma sort_eq_of_set_eq:
  fixes p q :: "'n::linorder list"
  assumes "distinct p" and "distinct q" and "set p = set q"
  shows "sort p = sort q"
  by (rule sorted_distinct_set_unique) (simp_all add: assms)

text \<open>
  Claim C2. On every graph that satisfies the invariant of \<^verbatim>\<open>nx.Graph\<close> and for every
  \<open>k\<close> (so for every \<open>k \<ge> 1\<close>) the enumeration returns a library in which no two entries
  have the same member set, every entry is a simple path of exactly \<open>k\<close> nodes of the
  graph (distinct nodes, each adjacent to the next, which is what the glossary calls a
  simple path), and the node set of every such simple path is the member set of exactly
  one entry, whatever traversal found it.
\<close>

theorem precompute_unique_paths_library:
  assumes "graph_inv G"
  shows "\<exists>lib. precompute_unique_paths G k = Inr lib \<and>
     (\<forall>i<length lib. \<forall>j<length lib. i \<noteq> j \<longrightarrow> set (lib ! i) \<noteq> set (lib ! j)) \<and>
     (\<forall>p\<in>set lib. simple_path G k p) \<and>
     (\<forall>q. simple_path G k q \<longrightarrow> (\<exists>!i. i < length lib \<and> set (lib ! i) = set q))"
proof -
  from precompute_records [OF assms, of k] obtain lib where
    r: "precompute_unique_paths G k = Inr lib" and sub: "set lib \<subseteq> {p. simple_path G k p}"
    and all: "sort ` set lib = sort ` {p. simple_path G k p}" and d: "distinct (map sort lib)"
    by blast
  have dist: "distinct p" if "p \<in> set lib" for p
    using sub that by (auto simp: simple_path_def)
  have a: "set (lib ! i) \<noteq> set (lib ! j)" if "i < length lib" "j < length lib" "i \<noteq> j" for i j
  proof
    assume "set (lib ! i) = set (lib ! j)"
    with dist that(1,2) have "sort (lib ! i) = sort (lib ! j)"
      by (intro sort_eq_of_set_eq) simp_all
    then have "map sort lib ! i = map sort lib ! j" using that(1,2) by simp
    moreover have "i < length (map sort lib)" "j < length (map sort lib)" using that by simp_all
    ultimately have "i = j" using d by (simp only: nth_eq_iff_index_eq)
    with that(3) show False by simp
  qed
  have b: "\<forall>p\<in>set lib. simple_path G k p" using sub by blast
  have c: "\<exists>!i. i < length lib \<and> set (lib ! i) = set q" if "simple_path G k q" for q
  proof -
    from that all have "sort q \<in> sort ` set lib" by blast
    then obtain p where p: "p \<in> set lib" and e: "sort q = sort p" by blast
    from p obtain i where i: "i < length lib" "lib ! i = p" by (auto simp: in_set_conv_nth)
    from e have "set q = set p" by (metis set_sort)
    with i have ex: "i < length lib \<and> set (lib ! i) = set q" by simp
    show ?thesis
    proof (rule ex1I [of _ i])
      show "i < length lib \<and> set (lib ! i) = set q" by (rule ex)
    next
      fix j assume j: "j < length lib \<and> set (lib ! j) = set q"
      show "j = i"
      proof (rule ccontr)
        assume "j \<noteq> i"
        with a [of j i] j ex show False by simp
      qed
    qed
  qed
  from r a b c show ?thesis by blast
qed

lemma graph_inv_scenario: "graph_inv scenario"
  unfolding graph_inv_def
proof (intro conjI)
  show "undirected scenario" by (rule undirected_scenario)
qed (simp_all add: scenario_eq nodes_def)

lemma precompute_scenario_3:
  "precompute_unique_paths scenario 3
     = Inr [[''A'', ''B'', ''C''], [''A'', ''C'', ''D''], [''B'', ''C'', ''D''], [''C'', ''D'', ''E'']]"
  by (simp add: precompute_unique_paths_def nodes_def dfs.simps neighbors_def scenario_eq Let_def)

theorem precompute_unique_paths_library_witness:
  "graph_inv scenario \<and>
   precompute_unique_paths scenario 3
     = Inr [[''A'', ''B'', ''C''], [''A'', ''C'', ''D''], [''B'', ''C'', ''D''], [''C'', ''D'', ''E'']] \<and>
   list_all (simple_path scenario 3)
     [[''A'', ''B'', ''C''], [''A'', ''C'', ''D''], [''B'', ''C'', ''D''], [''C'', ''D'', ''E'']]"
proof -
  from precompute_unique_paths_library [OF graph_inv_scenario, of 3] obtain lib where
    r: "precompute_unique_paths scenario 3 = Inr lib" and b: "\<forall>p\<in>set lib. simple_path scenario 3 p"
    by blast
  from r have "lib = [[''A'', ''B'', ''C''], [''A'', ''C'', ''D''], [''B'', ''C'', ''D''], [''C'', ''D'', ''E'']]"
    by (simp add: precompute_scenario_3)
  with b r graph_inv_scenario show ?thesis by (simp add: list_all_iff)
qed

section \<open>The parameter \<open>k\<close> of the enumeration\<close>

lemma simple_path_in_nodes:
  assumes "graph_inv G" and "successively (has_edge G) p" and "p \<noteq> []" and "hd p \<in> set (nodes G)"
  shows "set p \<subseteq> set (nodes G)"
  using assms(2-4)
proof (induction p rule: induct_list012)
  case 1
  then show ?case by simp
next
  case (2 x)
  then show ?case by simp
next
  case (3 x y zs)
  from "3.prems" have e: "has_edge G x y" and s: "successively (has_edge G) (y # zs)"
    and x: "x \<in> set (nodes G)" by simp_all
  from has_edge_in_nodes [OF assms(1) e] have "hd (y # zs) \<in> set (nodes G)" by simp
  with "3.IH"(2) s have "set (y # zs) \<subseteq> set (nodes G)" by simp
  with x show ?case by simp
qed

lemma simple_path_length_le:
  assumes "graph_inv G" and "simple_path G k p"
  shows "1 \<le> k \<and> k \<le> int (length (nodes G))"
proof -
  from assms(2) have p: "p \<noteq> []" "hd p \<in> set (nodes G)" "distinct p"
    "successively (has_edge G) p" "int (length p) = k"
    by (simp_all add: simple_path_def)
  from simple_path_in_nodes [OF assms(1) p(4) p(1) p(2)] have "card (set p) \<le> card (set (nodes G))"
    by (intro card_mono) simp_all
  also have "\<dots> \<le> length (nodes G)" by (rule card_length)
  finally have "length p \<le> length (nodes G)" using p(3) by (simp add: distinct_card)
  moreover from p(1) have "1 \<le> length p" by (cases p) simp_all
  ultimately show ?thesis using p(5) by linarith
qed

lemma precompute_no_simple_path:
  assumes "graph_inv G" and "k < 1 \<or> int (length (nodes G)) < k"
  shows "precompute_unique_paths G k = Inr []"
proof -
  from precompute_records [OF assms(1), of k] obtain lib where
    r: "precompute_unique_paths G k = Inr lib" and sub: "set lib \<subseteq> {p. simple_path G k p}"
    by blast
  have "{p. simple_path G k p} = {}"
    using simple_path_length_le [OF assms(1), of k] assms(2) by fastforce
  with sub have "lib = []" by simp
  with r show ?thesis by simp
qed

lemma dfs_singleton:
  "dfs G 1 n [n] st = Inr (if [n] \<notin> fst st then (insert [n] (fst st), snd st @ [[n]]) else st)"
  by (subst dfs.simps) (simp add: Let_def)

lemma for_loop_singletons:
  assumes "distinct ns" and "(\<lambda>n. [n]) ` set ns \<inter> seen = {}"
  shows "for_loop (\<lambda>node st. dfs G 1 node [node] st) ns (seen, out)
           = Inr (seen \<union> (\<lambda>n. [n]) ` set ns, out @ map (\<lambda>n. [n]) ns)"
  using assms
proof (induction ns arbitrary: seen out)
  case Nil
  show ?case by simp
next
  case (Cons n ns)
  from Cons.prems have new: "[n] \<notin> seen" and d: "distinct ns"
    and dj: "(\<lambda>n. [n]) ` set ns \<inter> insert [n] seen = {}"
    by auto
  from Cons.IH [OF d dj, of "out @ [[n]]"] new show ?case
    by (simp add: dfs_singleton)
qed

lemma precompute_singletons:
  assumes "graph_inv G"
  shows "precompute_unique_paths G 1 = Inr (map (\<lambda>n. [n]) (nodes G))"
proof -
  from assms have "distinct (nodes G)" by (simp add: graph_inv_def nodes_def)
  from for_loop_singletons [OF this, of "{}" G "[]"] show ?thesis
    by (simp add: precompute_unique_paths_def)
qed

text \<open>
  Claim C6, as the notebook has it. \<^verbatim>\<open>precompute_unique_paths\<close> checks nothing about
  \<^verbatim>\<open>desired_length\<close> and raises nothing on a graph that satisfies the invariant of
  \<^verbatim>\<open>nx.Graph\<close>: for \<open>k \<le> 0\<close> no path ever has \<open>k\<close> nodes and the library is empty, for
  \<open>k = 1\<close> the library is the singleton of every node in the graph's node order, and for
  \<open>k\<close> above the number of nodes the library is empty.
\<close>

theorem precompute_unique_paths_never_fails:
  assumes "graph_inv G"
  shows "(\<exists>lib. precompute_unique_paths G k = Inr lib) \<and>
     (k \<le> 0 \<longrightarrow> precompute_unique_paths G k = Inr []) \<and>
     (k = 1 \<longrightarrow> precompute_unique_paths G k = Inr (map (\<lambda>n. [n]) (nodes G))) \<and>
     (int (length (nodes G)) < k \<longrightarrow> precompute_unique_paths G k = Inr [])"
proof (intro conjI impI)
  show "\<exists>lib. precompute_unique_paths G k = Inr lib"
    using precompute_records [OF assms, of k] by blast
next
  assume "k \<le> 0"
  then show "precompute_unique_paths G k = Inr []"
    by (intro precompute_no_simple_path [OF assms]) simp
next
  assume "k = 1"
  then show "precompute_unique_paths G k = Inr (map (\<lambda>n. [n]) (nodes G))"
    by (simp add: precompute_singletons [OF assms])
next
  assume "int (length (nodes G)) < k"
  then show "precompute_unique_paths G k = Inr []"
    by (intro precompute_no_simple_path [OF assms]) simp
qed

theorem precompute_unique_paths_never_fails_witness:
  "graph_inv scenario \<and>
   precompute_unique_paths scenario (- 2) = Inr [] \<and>
   precompute_unique_paths scenario 1 = Inr [[''A''], [''B''], [''C''], [''D''], [''E'']] \<and>
   precompute_unique_paths scenario 6 = Inr []"
proof -
  note t = precompute_unique_paths_never_fails [OF graph_inv_scenario]
  have 1: "precompute_unique_paths scenario (- 2) = Inr []"
    using t [of "- 2"] by simp
  have 2: "precompute_unique_paths scenario 1 = Inr [[''A''], [''B''], [''C''], [''D''], [''E'']]"
    using t [of 1] by (simp add: nodes_scenario)
  have 3: "precompute_unique_paths scenario 6 = Inr []"
    using t [of 6] by (simp add: nodes_scenario)
  from graph_inv_scenario 1 2 3 show ?thesis by simp
qed

theorem precompute_unique_paths_nonpositive_counterexample:
  "precompute_unique_paths scenario 0 = Inr [] \<and> precompute_unique_paths scenario (- 1) = Inr []"
  by (simp add: precompute_no_simple_path [OF graph_inv_scenario])

section \<open>Determinism of the enumeration\<close>

lemma dfs_same_order:
  assumes "\<forall>n. neighbors G n = neighbors G' n"
  shows "dfs G k current path st = dfs G' k current path st"
  using assms
proof (induction G k current path st rule: dfs.induct)
  case (1 G k current path st)
  show ?case
  proof (cases "int (length path) = k")
    case True
    then show ?thesis by (simp add: dfs.simps [of G] dfs.simps [of G'])
  next
    case False
    show ?thesis
    proof (cases "neighbors G current")
      case (Inl e)
      with False "1.prems" show ?thesis by (simp add: dfs.simps [of G] dfs.simps [of G'])
    next
      case (Inr nbrs)
      have "for_loop (\<lambda>neighbor st'. if neighbor \<notin> set path
                then dfs G k neighbor (path @ [neighbor]) st' else Inr st') nbrs st
          = for_loop (\<lambda>neighbor st'. if neighbor \<notin> set path
                then dfs G' k neighbor (path @ [neighbor]) st' else Inr st') nbrs st"
      proof (rule for_loop_cong [OF refl refl])
        fix x s' assume "x \<in> set nbrs"
        with "1.IH" [OF False Inr, of x s'] "1.prems"
        show "(if x \<notin> set path then dfs G k x (path @ [x]) s' else Inr s')
            = (if x \<notin> set path then dfs G' k x (path @ [x]) s' else Inr s')"
          by simp
      qed
      with False Inr "1.prems" show ?thesis
        by (simp add: dfs.simps [of G k current] dfs.simps [of G' k current])
    qed
  qed
qed

text \<open>
  Claim C9. The library is a function of the order in which the graph yields its nodes
  and of the order in which every node yields its neighbours, and of nothing else: two
  runs on graphs that agree on these orders, so two runs on the same graph, return the
  same paths in the same order, each with the same node order.
\<close>

theorem precompute_unique_paths_deterministic:
  assumes "nodes G = nodes G'" and "\<forall>n. neighbors G n = neighbors G' n"
  shows "precompute_unique_paths G k = precompute_unique_paths G' k"
proof -
  have "(\<lambda>node st. dfs G k node [node] st) = (\<lambda>node st. dfs G' k node [node] st)"
    by (intro ext dfs_same_order assms(2))
  with assms(1) show ?thesis by (simp add: precompute_unique_paths_def)
qed

theorem precompute_unique_paths_deterministic_witness:
  "nodes scenario = nodes (add_node scenario ''A'' 7) \<and>
   precompute_unique_paths scenario 3 = precompute_unique_paths (add_node scenario ''A'' 7) 3 \<and>
   scenario \<noteq> add_node scenario ''A'' 7"
proof -
  have n: "nodes scenario = nodes (add_node scenario ''A'' 7)"
    by (simp add: nodes_def add_node_def scenario_eq)
  have a: "\<forall>n. neighbors scenario n = neighbors (add_node scenario ''A'' 7) n"
    by (simp add: neighbors_def add_node_def scenario_eq)
  have d: "scenario \<noteq> add_node scenario ''A'' 7"
    by (simp add: add_node_def scenario_eq)
  from precompute_unique_paths_deterministic [OF n a, of 3] n d show ?thesis by simp
qed

section \<open>Construction of the graph from the roster table\<close>

text \<open>
  The table \<^verbatim>\<open>df\<close> is what \<^verbatim>\<open>pd.read_excel\<close> returns for
  \<^verbatim>\<open>nba_champions_rosters.xlsx\<close>. A cell of a name column holds a string, or, when the
  sheet has nothing there, the float \<^verbatim>\<open>NaN\<close>. Python finds \<^verbatim>\<open>NaN\<close> in a list or a
  dictionary by identity, so as a key and as a node it is one value like any other;
  only \<^verbatim>\<open><\<close> treats it differently (see \<open>sorted_cells\<close>). This is the case of a
  column that holds at least one string. A \<^verbatim>\<open>Player\<close> column without any string is read
  as a column of floats, and \<^verbatim>\<open>tolist()\<close> then makes a float of its own for every
  missing cell: on such a table the construction returns a graph, as the model says,
  but with one node for each missing cell of a roster of two or more rows, where the
  model has a single node. The theorems about named tables below use tables whose
  \<^verbatim>\<open>Player\<close> column holds a string.
\<close>

datatype cell = Text string | NaN

record row =
  Season :: cell
  Team :: cell
  Year :: int
  Player :: cell

text \<open>\<^verbatim>\<open>df['Player'].value_counts().to_dict()\<close>: the missing cells are dropped
  (\<^verbatim>\<open>dropna=True\<close>); every other value of the column comes with the number of rows that
  hold it, the larger counts first. Values with the same count are kept here in the
  order of their first row; that order is the library's and no statement below depends
  on it.\<close>

definition value_counts :: "cell list \<Rightarrow> (cell \<times> int) list" where
  "value_counts xs =
     (let present = filter (\<lambda>c. c \<noteq> NaN) xs
      in sort_key (\<lambda>(p, c). - c)
           (map (\<lambda>p. (p, int (count_list present p))) (rev (remdups (rev present)))))"

text \<open>\<^verbatim>\<open>df.groupby(["Season", "Team"])\<close>, iterated: a row with a missing season or team
  belongs to no group (\<^verbatim>\<open>dropna=True\<close>); the distinct keys of the other rows come in
  sorted order, each with its rows in the order of the table.\<close>

definition group_key :: "row \<Rightarrow> (string \<times> string) option" where
  "group_key r =
     (case Season r of
        NaN \<Rightarrow> None
      | Text s \<Rightarrow> (case Team r of NaN \<Rightarrow> None | Text t \<Rightarrow> Some (s, t)))"

definition grouped :: "row list \<Rightarrow> ((string \<times> string) \<times> row list) list" where
  "grouped df =
     map (\<lambda>k. (k, filter (\<lambda>r. group_key r = Some k) df))
       (sort (remdups (List.map_filter group_key df)))"

text \<open>\<^verbatim>\<open>sorted(players)\<close>. Sorting compares the members with \<^verbatim>\<open><\<close>: between a string
  and a float that raises \<^verbatim>\<open>TypeError\<close>, and a list that holds both cannot be sorted
  without such a comparison. Strings are sorted by their order; \<^verbatim>\<open>NaN < NaN\<close> is false,
  so a list of missing cells only is returned as it is.\<close>

definition sorted_cells :: "cell list \<Rightarrow> error + cell list" where
  "sorted_cells xs =
     (let names = List.map_filter (\<lambda>c. case c of Text s \<Rightarrow> Some s | NaN \<Rightarrow> None) xs
      in if names = [] then Inr xs
         else if length names = length xs then Inr (map Text (sort names))
         else Inl TypeError)"

text \<open>The body of the loop over the pairs of a roster.\<close>

definition edge_body :: "'n \<times> 'n \<Rightarrow> 'n graph \<Rightarrow> error + 'n graph" where
  "edge_body p G =
     (case p of (player1, player2) \<Rightarrow>
        if has_edge G player1 player2
        then incr_edge_weight G player1 player2
        else Inr (add_edge G player1 player2 1))"

text \<open>The body of the loop over the groups: the players of the group's rows, sorted, and
  every pair of positions of that list.\<close>

definition group_body :: "(string \<times> string) \<times> row list \<Rightarrow> cell graph \<Rightarrow> error + cell graph" where
  "group_body g G =
     (case g of (key, rows) \<Rightarrow>
        let players = map Player rows
        in (case sorted_cells players of
              Inl e \<Rightarrow> Inl e
            | Inr sorted_players \<Rightarrow> for_loop edge_body (combinations2 sorted_players) G))"

text \<open>The cells that build \<^verbatim>\<open>G\<close>: one node for each counted player, with the count as
  its weight, then the edges of every group.\<close>

definition build_graph :: "row list \<Rightarrow> error + cell graph" where
  "build_graph df =
     (let player_championships = value_counts (map Player df);
          G = fold (\<lambda>(player, count) G. add_node G player count) player_championships empty_graph
      in for_loop group_body (grouped df) G)"

section \<open>The graph the construction produces\<close>

lemma all_entries_iff:
  "(\<forall>x nb. (x, nb) \<in> set a \<longrightarrow> Q nb) \<longleftrightarrow> (\<forall>(u, nbrs)\<in>set a. Q nbrs)"
  by auto

lemma graph_inv_map_of:
  "graph_inv G \<longleftrightarrow>
     distinct (map fst (node G)) \<and> distinct (map fst (adj G)) \<and>
     fst ` set (adj G) = fst ` set (node G) \<and>
     (\<forall>x nb. map_of (adj G) x = Some nb \<longrightarrow>
        distinct (map fst nb) \<and> fst ` set nb \<subseteq> fst ` set (node G)) \<and>
     undirected G"
proof (cases "distinct (map fst (adj G))")
  case True
  then have iff: "\<And>x nb. map_of (adj G) x = Some nb \<longleftrightarrow> (x, nb) \<in> set (adj G)" by simp
  have n: "set (nodes G) = fst ` set (node G)" by (simp add: nodes_def)
  show ?thesis
    unfolding graph_inv_def iff n
      all_entries_iff [of "adj G" "\<lambda>nb. distinct (map fst nb) \<and> fst ` set nb \<subseteq> fst ` set (node G)"]
    by (simp only: set_map)
next
  case False
  then show ?thesis by (simp add: graph_inv_def)
qed

lemma map_of_adj_setitem:
  "map_of (adj_setitem u v d a) x =
     (if x = u then Some (AList.update v d (case map_of a u of None \<Rightarrow> [] | Some nbrs \<Rightarrow> nbrs))
      else map_of a x)"
  by (simp add: adj_setitem_def update_conv')

lemma keys_adj_setitem: "fst ` set (adj_setitem u v d a) = insert u (fst ` set a)"
  by (simp add: adj_setitem_def dom_update)

lemma distinct_adj_setitem:
  "distinct (map fst a) \<Longrightarrow> distinct (map fst (adj_setitem u v d a))"
  by (simp add: adj_setitem_def distinct_update)

text \<open>Writing the attributes \<open>d\<close> of the edge between \<open>u\<close> and \<open>v\<close> at both endpoints, as
  \<^const>\<open>add_edge\<close> and \<^const>\<open>incr_edge_weight\<close> do.\<close>

definition with_edge :: "'n graph \<Rightarrow> 'n \<Rightarrow> 'n \<Rightarrow> attrs \<Rightarrow> 'n graph" where
  "with_edge G u v d = G\<lparr>adj := adj_setitem v u d (adj_setitem u v d (adj G))\<rparr>"

lemma edge_attrs_with_edge:
  "edge_attrs (with_edge G u v d) a b =
     (if (a = u \<and> b = v) \<or> (a = v \<and> b = u) then Some d else edge_attrs G a b)"
  by (auto simp: with_edge_def edge_attrs_def map_of_adj_setitem update_conv'
      split: option.splits)

lemma node_with_edge: "node (with_edge G u v d) = node G"
  by (simp add: with_edge_def)

lemma nodes_with_edge: "nodes (with_edge G u v d) = nodes G"
  by (simp add: nodes_def node_with_edge)

lemma graph_inv_with_edge:
  assumes "graph_inv G" and "u \<in> set (nodes G)" and "v \<in> set (nodes G)"
  shows "graph_inv (with_edge G u v d)"
proof -
  let ?G = "with_edge G u v d"
  let ?N = "fst ` set (node G)"
  from assms(1) have dn: "distinct (map fst (node G))" and da: "distinct (map fst (adj G))"
    and keys: "fst ` set (adj G) = ?N"
    and nb: "\<And>x nb. map_of (adj G) x = Some nb \<Longrightarrow> distinct (map fst nb) \<and> fst ` set nb \<subseteq> ?N"
    and un: "undirected G"
    unfolding graph_inv_map_of by blast+
  from assms(2,3) have u: "u \<in> ?N" and v: "v \<in> ?N" by (simp_all add: nodes_def)
  have 1: "distinct (map fst (adj ?G))"
    by (simp add: with_edge_def distinct_adj_setitem da)
  have 2: "fst ` set (adj ?G) = ?N"
    using u v keys by (auto simp: with_edge_def keys_adj_setitem)
  have upd: "distinct (map fst (AList.update k d l)) \<and> fst ` set (AList.update k d l) \<subseteq> ?N"
    if "distinct (map fst l) \<and> fst ` set l \<subseteq> ?N" and "k \<in> ?N" for k and l :: "('a \<times> attrs) list"
    using that by (simp add: distinct_update dom_update)
  have old: "distinct (map fst (case map_of a x of None \<Rightarrow> [] | Some nbrs \<Rightarrow> nbrs)) \<and>
      fst ` set (case map_of a x of None \<Rightarrow> [] | Some nbrs \<Rightarrow> nbrs) \<subseteq> ?N"
    if "\<And>y nb. map_of a y = Some nb \<Longrightarrow> distinct (map fst nb) \<and> fst ` set nb \<subseteq> ?N"
    for a :: "('a \<times> ('a \<times> attrs) list) list" and x
    using that by (cases "map_of a x") auto
  have step: "distinct (map fst nb) \<and> fst ` set nb \<subseteq> ?N"
    if a: "\<And>y nb. map_of a y = Some nb \<Longrightarrow> distinct (map fst nb) \<and> fst ` set nb \<subseteq> ?N"
      and k: "k \<in> ?N" and m: "map_of (adj_setitem x k d a) y = Some nb"
    for a :: "('a \<times> ('a \<times> attrs) list) list" and x k y nb
  proof (cases "y = x")
    case True
    with m have "nb = AList.update k d (case map_of a x of None \<Rightarrow> [] | Some nbrs \<Rightarrow> nbrs)"
      by (simp add: map_of_adj_setitem)
    with upd [OF old [OF a] k] show ?thesis by simp
  next
    case False
    with m have "map_of a y = Some nb" by (simp add: map_of_adj_setitem)
    then show ?thesis by (rule a)
  qed
  have 3: "distinct (map fst nb) \<and> fst ` set nb \<subseteq> ?N" if "map_of (adj ?G) y = Some nb" for y nb
  proof -
    have "\<And>y nb. map_of (adj_setitem u v d (adj G)) y = Some nb
        \<Longrightarrow> distinct (map fst nb) \<and> fst ` set nb \<subseteq> ?N"
      by (rule step [OF nb v])
    from step [OF this u] that show ?thesis by (simp add: with_edge_def)
  qed
  have 4: "undirected ?G"
    using un by (simp add: undirected_def edge_attrs_with_edge nodes_with_edge)
  from dn 1 2 3 4 show ?thesis
    unfolding graph_inv_map_of by (simp add: node_with_edge)
qed

lemma graph_inv_sym:
  assumes "graph_inv G"
  shows "edge_attrs G u v = edge_attrs G v u"
proof -
  let ?N = "fst ` set (node G)"
  from assms have keys: "fst ` set (adj G) = ?N"
    and nb: "\<And>x nb. map_of (adj G) x = Some nb \<Longrightarrow> fst ` set nb \<subseteq> ?N"
    and un: "undirected G"
    unfolding graph_inv_map_of by blast+
  have out: "edge_attrs G a b = None \<and> edge_attrs G b a = None" if "a \<notin> ?N" for a b
  proof
    from that keys have "map_of (adj G) a = None" by (simp add: map_of_eq_None_iff)
    then show "edge_attrs G a b = None" by (simp add: edge_attrs_def)
    show "edge_attrs G b a = None"
    proof (cases "map_of (adj G) b")
      case None
      then show ?thesis by (simp add: edge_attrs_def)
    next
      case (Some l)
      from nb [OF Some] that have "a \<notin> fst ` set l" by blast
      then have "map_of l a = None" by (simp add: map_of_eq_None_iff)
      with Some show ?thesis by (simp add: edge_attrs_def)
    qed
  qed
  show ?thesis
  proof (cases "u \<in> ?N \<and> v \<in> ?N")
    case True
    then have "u \<in> set (nodes G)" "v \<in> set (nodes G)" by (simp_all add: nodes_def)
    with un show ?thesis unfolding undirected_def by blast
  next
    case False
    then consider "u \<notin> ?N" | "v \<notin> ?N" by blast
    then show ?thesis
    proof cases
      case 1
      from out [OF 1, of v] show ?thesis by simp
    next
      case 2
      from out [OF 2, of u] show ?thesis by simp
    qed
  qed
qed

lemma undirectedI:
  assumes "\<And>u v. edge_attrs G u v = edge_attrs G v u"
  shows "undirected G"
  unfolding undirected_def using assms by blast

lemma ensure_node_known:
  assumes "n \<in> set (nodes G)"
  shows "ensure_node G n = G"
proof (cases "map_of (node G) n")
  case None
  with assms show ?thesis by (simp add: in_nodes_iff)
next
  case (Some d)
  then show ?thesis by (simp add: ensure_node_def)
qed

lemma nodes_ensure_node: "set (nodes (ensure_node G n)) = insert n (set (nodes G))"
proof (cases "map_of (node G) n")
  case None
  then show ?thesis by (simp add: ensure_node_def nodes_def dom_update)
next
  case (Some d)
  then have "n \<in> set (nodes G)" by (simp add: in_nodes_iff)
  with ensure_node_known [OF this] show ?thesis by auto
qed

lemma map_of_node_ensure_node:
  "map_of (node (ensure_node G n)) p =
     (if p = n \<and> map_of (node G) n = None then Some None else map_of (node G) p)"
  by (simp add: ensure_node_def update_conv')

lemma edge_attrs_ensure_node:
  assumes "graph_inv G"
  shows "edge_attrs (ensure_node G n) a b = edge_attrs G a b"
proof (cases "map_of (node G) n")
  case None
  then have "n \<notin> fst ` set (node G)" by (simp add: map_of_eq_None_iff)
  with assms have "n \<notin> fst ` set (adj G)" unfolding graph_inv_map_of by blast
  then have "map_of (adj G) n = None" by (simp add: map_of_eq_None_iff)
  with None show ?thesis by (simp add: ensure_node_def edge_attrs_def update_conv')
next
  case (Some d)
  then show ?thesis by (simp add: ensure_node_def)
qed

lemma graph_inv_ensure_node:
  assumes "graph_inv G"
  shows "graph_inv (ensure_node G n)"
proof (cases "map_of (node G) n")
  case (Some d)
  with assms show ?thesis by (simp add: ensure_node_def)
next
  case None
  let ?G = "ensure_node G n"
  let ?N = "fst ` set (node G)"
  from None have G: "?G = \<lparr>node = AList.update n None (node G), adj = AList.update n [] (adj G)\<rparr>"
    by (simp add: ensure_node_def)
  from assms have dn: "distinct (map fst (node G))" and da: "distinct (map fst (adj G))"
    and keys: "fst ` set (adj G) = ?N"
    and nb: "\<And>x nb. map_of (adj G) x = Some nb \<Longrightarrow> distinct (map fst nb) \<and> fst ` set nb \<subseteq> ?N"
    unfolding graph_inv_map_of by blast+
  have 1: "distinct (map fst (node ?G))" by (simp add: G distinct_update dn)
  have 2: "distinct (map fst (adj ?G))" by (simp add: G distinct_update da)
  have 3: "fst ` set (adj ?G) = fst ` set (node ?G)" by (simp add: G dom_update keys)
  have 4: "distinct (map fst l) \<and> fst ` set l \<subseteq> fst ` set (node ?G)"
    if "map_of (adj ?G) x = Some l" for x l
  proof (cases "x = n")
    case True
    with that have "l = []" by (simp add: G update_conv')
    then show ?thesis by simp
  next
    case False
    with that have "map_of (adj G) x = Some l" by (simp add: G update_conv')
    from nb [OF this] show ?thesis by (auto simp: G dom_update)
  qed
  have 5: "undirected ?G"
  proof (rule undirectedI)
    fix u v
    show "edge_attrs ?G u v = edge_attrs ?G v u"
      by (simp only: edge_attrs_ensure_node [OF assms] graph_inv_sym [OF assms, of u v])
  qed
  from 1 2 3 4 5 show ?thesis unfolding graph_inv_map_of by blast
qed

lemma add_edge_eq:
  "add_edge G u v w = with_edge (ensure_node (ensure_node G u) v) u v (Some w)"
  by (simp add: add_edge_def with_edge_def Let_def)

lemma has_edge_in_both_nodes:
  assumes "graph_inv G" and "has_edge G u v"
  shows "u \<in> set (nodes G) \<and> v \<in> set (nodes G)"
proof
  from assms(2) have "map_of (adj G) u \<noteq> None" by (auto simp: has_edge_def split: option.splits)
  then have "u \<in> fst ` set (adj G)" by (simp add: map_of_eq_None_iff)
  with assms(1) show "u \<in> set (nodes G)" by (simp add: graph_inv_def nodes_def)
  show "v \<in> set (nodes G)" by (rule has_edge_in_nodes [OF assms])
qed

lemma has_edge_iff_attrs: "has_edge G u v \<longleftrightarrow> edge_attrs G u v \<noteq> None"
  by (simp add: has_edge_def edge_attrs_def split: option.splits)

lemma incr_edge_weight_known:
  assumes "edge_attrs G u v = Some (Some w)"
  shows "incr_edge_weight G u v = Inr (with_edge G u v (Some (w + 1)))"
  using assms
  by (auto simp: incr_edge_weight_def edge_getitem_def edge_attrs_def with_edge_def
      split: option.splits)

text \<open>The number of pairs of a list that join \<open>a\<close> and \<open>b\<close>, in either order.\<close>

definition pair_count :: "('n \<times> 'n) list \<Rightarrow> 'n \<Rightarrow> 'n \<Rightarrow> nat" where
  "pair_count ps a b = length (filter (\<lambda>(x, y). (a = x \<and> b = y) \<or> (a = y \<and> b = x)) ps)"

text \<open>The edges of \<open>G\<close> are the pairs that \<open>c\<close> counts at least once, each with its count
  as weight.\<close>

definition counted :: "'n graph \<Rightarrow> ('n \<Rightarrow> 'n \<Rightarrow> nat) \<Rightarrow> bool" where
  "counted G c \<longleftrightarrow>
     (\<forall>u v. edge_attrs G u v = (if c u v = 0 then None else Some (Some (int (c u v)))))"

lemma pair_count_sym: "pair_count ps a b = pair_count ps b a"
  unfolding pair_count_def by (rule arg_cong [where f = length], rule filter_cong) auto

lemma pair_count_Cons: "pair_count (p # ps) a b = pair_count [p] a b + pair_count ps a b"
  by (simp add: pair_count_def)

lemma pair_count_Nil: "pair_count [] a b = 0"
  by (simp add: pair_count_def)

lemma pair_count_append: "pair_count (ps @ qs) a b = pair_count ps a b + pair_count qs a b"
  by (simp add: pair_count_def)

lemma counted_sym:
  assumes "graph_inv G" and "counted G c"
  shows "c a b = c b a"
proof -
  from assms(2) have ab: "edge_attrs G a b = (if c a b = 0 then None else Some (Some (int (c a b))))"
    and ba: "edge_attrs G b a = (if c b a = 0 then None else Some (Some (int (c b a))))"
    unfolding counted_def by blast+
  from graph_inv_sym [OF assms(1), of a b] ab ba
  have "(if c a b = 0 then None else Some (Some (int (c a b))))
      = (if c b a = 0 then None else Some (Some (int (c b a))))"
    by (simp only:)
  then show ?thesis by (cases "c a b = 0"; cases "c b a = 0") simp_all
qed

text \<open>No node is lost and no node attribute is changed.\<close>

definition keeps_nodes :: "'n graph \<Rightarrow> 'n graph \<Rightarrow> bool" where
  "keeps_nodes G G' \<longleftrightarrow> (\<forall>p d. map_of (node G) p = Some d \<longrightarrow> map_of (node G') p = Some d)"

lemma keeps_nodes_refl: "keeps_nodes G G"
  by (simp add: keeps_nodes_def)

lemma keeps_nodes_trans: "keeps_nodes G G1 \<Longrightarrow> keeps_nodes G1 G2 \<Longrightarrow> keeps_nodes G G2"
  unfolding keeps_nodes_def by blast

lemma keeps_nodes_ensure_node: "keeps_nodes G (ensure_node G n)"
  unfolding keeps_nodes_def
proof (intro allI impI)
  fix p d assume "map_of (node G) p = Some d"
  then show "map_of (node (ensure_node G n)) p = Some d"
    by (cases "p = n") (simp_all add: map_of_node_ensure_node)
qed

lemma edge_body_counted:
  assumes inv: "graph_inv G" and cnt: "counted G c"
  shows "\<exists>G'. edge_body (u, v) G = Inr G' \<and> graph_inv G' \<and> keeps_nodes G G' \<and>
           set (nodes G') = insert u (insert v (set (nodes G))) \<and>
           counted G' (\<lambda>a b. c a b + pair_count [(u, v)] a b)"
proof -
  let ?G1 = "ensure_node G u"
  let ?G2 = "ensure_node ?G1 v"
  let ?G = "with_edge ?G2 u v (Some (int (c u v) + 1))"
  have i1: "graph_inv ?G1" by (rule graph_inv_ensure_node [OF inv])
  have i2: "graph_inv ?G2" by (rule graph_inv_ensure_node [OF i1])
  have n2: "set (nodes ?G2) = insert u (insert v (set (nodes G)))"
    by (auto simp: nodes_ensure_node)
  then have u: "u \<in> set (nodes ?G2)" and v: "v \<in> set (nodes ?G2)" by simp_all
  have a2: "edge_attrs ?G2 a b = edge_attrs G a b" for a b
    by (simp only: edge_attrs_ensure_node [OF i1] edge_attrs_ensure_node [OF inv])
  have run: "edge_body (u, v) G = Inr ?G"
  proof (cases "c u v = 0")
    case True
    with cnt have "\<not> has_edge G u v" by (simp add: has_edge_iff_attrs counted_def)
    with True show ?thesis by (simp add: edge_body_def add_edge_eq)
  next
    case False
    with cnt have a: "edge_attrs G u v = Some (Some (int (c u v)))" by (simp add: counted_def)
    then have h: "has_edge G u v" by (simp add: has_edge_iff_attrs)
    from has_edge_in_both_nodes [OF inv h] have "?G2 = G"
      by (simp add: ensure_node_known)
    with h incr_edge_weight_known [OF a] show ?thesis by (simp add: edge_body_def)
  qed
  have cnt': "counted ?G (\<lambda>a b. c a b + pair_count [(u, v)] a b)"
    unfolding counted_def
  proof (intro allI)
    fix a b
    show "edge_attrs ?G a b = (if c a b + pair_count [(u, v)] a b = 0 then None
        else Some (Some (int (c a b + pair_count [(u, v)] a b))))"
    proof (cases "(a = u \<and> b = v) \<or> (a = v \<and> b = u)")
      case True
      then have "c a b = c u v" using counted_sym [OF inv cnt, of u v] by auto
      with True show ?thesis by (simp add: edge_attrs_with_edge pair_count_def)
    next
      case False
      then have z: "pair_count [(u, v)] a b = 0" by (auto simp: pair_count_def)
      from False have "edge_attrs ?G a b = edge_attrs ?G2 a b"
        by (simp only: edge_attrs_with_edge if_False)
      also have "\<dots> = edge_attrs G a b" by (rule a2)
      also from cnt have "\<dots> = (if c a b = 0 then None else Some (Some (int (c a b))))"
        unfolding counted_def by blast
      finally show ?thesis by (simp only: z add_0_right)
    qed
  qed
  have k: "keeps_nodes G ?G"
  proof -
    have "keeps_nodes G ?G2"
      by (rule keeps_nodes_trans [OF keeps_nodes_ensure_node keeps_nodes_ensure_node])
    then show ?thesis by (simp add: keeps_nodes_def node_with_edge)
  qed
  show ?thesis
  proof (intro exI [of _ ?G] conjI)
    show "edge_body (u, v) G = Inr ?G" by (rule run)
    show "graph_inv ?G" by (rule graph_inv_with_edge [OF i2 u v])
    show "keeps_nodes G ?G" by (rule k)
    show "set (nodes ?G) = insert u (insert v (set (nodes G)))"
      by (simp only: nodes_with_edge n2)
    show "counted ?G (\<lambda>a b. c a b + pair_count [(u, v)] a b)" by (rule cnt')
  qed
qed

lemma edge_loop_counted:
  assumes "graph_inv G" and "counted G c"
  shows "\<exists>G'. for_loop edge_body ps G = Inr G' \<and> graph_inv G' \<and> keeps_nodes G G' \<and>
           set (nodes G') = set (nodes G) \<union> fst ` set ps \<union> snd ` set ps \<and>
           counted G' (\<lambda>a b. c a b + pair_count ps a b)"
  using assms
proof (induction ps arbitrary: G c)
  case Nil
  then show ?case by (simp add: pair_count_Nil keeps_nodes_refl)
next
  case (Cons p ps)
  obtain u v where p: "p = (u, v)" by (cases p)
  from edge_body_counted [OF Cons.prems, of u v] obtain G1 where
    1: "edge_body (u, v) G = Inr G1" "graph_inv G1" "keeps_nodes G G1"
    "set (nodes G1) = insert u (insert v (set (nodes G)))"
    "counted G1 (\<lambda>a b. c a b + pair_count [(u, v)] a b)"
    by blast
  from Cons.IH [OF 1(2) 1(5)] obtain G' where
    2: "for_loop edge_body ps G1 = Inr G'" "graph_inv G'" "keeps_nodes G1 G'"
    "set (nodes G') = set (nodes G1) \<union> fst ` set ps \<union> snd ` set ps"
    "counted G' (\<lambda>a b. c a b + pair_count [(u, v)] a b + pair_count ps a b)"
    by blast
  have "(\<lambda>a b. c a b + pair_count [(u, v)] a b + pair_count ps a b)
      = (\<lambda>a b. c a b + pair_count (p # ps) a b)"
    by (simp add: p pair_count_Cons [of "(u, v)" ps] add.assoc)
  with 2(5) have c': "counted G' (\<lambda>a b. c a b + pair_count (p # ps) a b)" by simp
  have n': "set (nodes G') = set (nodes G) \<union> fst ` set (p # ps) \<union> snd ` set (p # ps)"
    using 1(4) 2(4) p by auto
  have r: "for_loop edge_body (p # ps) G = Inr G'" using 1(1) 2(1) p by simp
  from r 2(2) keeps_nodes_trans [OF 1(3) 2(3)] n' c' show ?case by blast
qed

lemma set_combinations2: "set (combinations2 xs) \<subseteq> set xs \<times> set xs"
  by (induction xs) auto

text \<open>A list of cells that holds a missing cell and a string.\<close>

definition mixed :: "cell list \<Rightarrow> bool" where
  "mixed cs \<longleftrightarrow> NaN \<in> set cs \<and> (\<exists>c\<in>set cs. c \<noteq> NaN)"

lemma names_all_text:
  assumes "NaN \<notin> set xs"
  shows "map Text (List.map_filter (\<lambda>c. case c of Text s \<Rightarrow> Some s | NaN \<Rightarrow> None) xs) = xs"
  using assms by (induction xs) (auto split: cell.splits)

lemma names_length_le:
  "length (List.map_filter (\<lambda>c. case c of Text s \<Rightarrow> Some s | NaN \<Rightarrow> None) xs) \<le> length xs"
  by (induction xs) (auto split: cell.splits)

lemma names_length_less:
  assumes "NaN \<in> set xs"
  shows "length (List.map_filter (\<lambda>c. case c of Text s \<Rightarrow> Some s | NaN \<Rightarrow> None) xs) < length xs"
  using assms
proof (induction xs)
  case Nil
  then show ?case by simp
next
  case (Cons x xs)
  show ?case
  proof (cases x)
    case (Text s)
    with Cons show ?thesis by simp
  next
    case NaN
    with names_length_le [of xs] show ?thesis by simp
  qed
qed

lemma names_empty_iff:
  "List.map_filter (\<lambda>c. case c of Text s \<Rightarrow> Some s | NaN \<Rightarrow> None) xs = []
     \<longleftrightarrow> (\<forall>c\<in>set xs. c = NaN)"
  by (induction xs) (auto split: cell.splits)

lemma sorted_cells_mixed:
  assumes "mixed cs"
  shows "sorted_cells cs = Inl TypeError"
proof -
  let ?names = "List.map_filter (\<lambda>c. case c of Text s \<Rightarrow> Some s | NaN \<Rightarrow> None) cs"
  from assms have 1: "?names \<noteq> []" by (auto simp: mixed_def names_empty_iff)
  from assms have "length ?names < length cs" by (simp add: mixed_def names_length_less)
  then have 2: "length ?names \<noteq> length cs" by simp
  from 1 2 show ?thesis by (simp add: sorted_cells_def Let_def)
qed

lemma sorted_cells_unmixed:
  assumes "\<not> mixed cs"
  shows "\<exists>ps. sorted_cells cs = Inr ps \<and> set ps = set cs \<and> length ps = length cs"
proof -
  let ?names = "List.map_filter (\<lambda>c. case c of Text s \<Rightarrow> Some s | NaN \<Rightarrow> None) cs"
  show ?thesis
  proof (cases "?names = []")
    case True
    then show ?thesis by (simp add: sorted_cells_def Let_def)
  next
    case False
    then have "\<exists>c\<in>set cs. c \<noteq> NaN" by (simp add: names_empty_iff)
    with assms have n: "NaN \<notin> set cs" by (auto simp: mixed_def)
    from names_all_text [OF n] have cs: "map Text ?names = cs" .
    then have len: "length ?names = length cs" by (metis length_map)
    have "set (map Text (sort ?names)) = set (map Text ?names)" by simp
    with cs have s: "set (map Text (sort ?names)) = set cs" by simp
    have l: "length (map Text (sort ?names)) = length cs" using len by simp
    from False len have "sorted_cells cs = Inr (map Text (sort ?names))"
      by (simp add: sorted_cells_def Let_def)
    with s l show ?thesis by blast
  qed
qed

text \<open>The list the pairs of a group are taken from, when \<^verbatim>\<open>sorted\<close> returns one.\<close>

definition sorted_list :: "cell list \<Rightarrow> cell list" where
  "sorted_list cs = (case sorted_cells cs of Inl e \<Rightarrow> [] | Inr ps \<Rightarrow> ps)"

text \<open>The number of pairs joining \<open>a\<close> and \<open>b\<close> that the loops over the groups go
  through.\<close>

definition group_pairs :: "((string \<times> string) \<times> row list) list \<Rightarrow> cell \<Rightarrow> cell \<Rightarrow> nat" where
  "group_pairs gs a b =
     sum_list (map (\<lambda>(key, rows). pair_count (combinations2 (sorted_list (map Player rows))) a b) gs)"

lemma group_body_mixed:
  assumes "mixed (map Player rows)"
  shows "group_body (key, rows) G = Inl TypeError"
  using sorted_cells_mixed [OF assms] by (simp add: group_body_def)

lemma group_body_counted:
  assumes "graph_inv G" and "counted G c" and "\<not> mixed (map Player rows)"
  shows "\<exists>G'. group_body (key, rows) G = Inr G' \<and> graph_inv G' \<and> keeps_nodes G G' \<and>
           set (nodes G') \<subseteq> set (nodes G) \<union> Player ` set rows \<and>
           counted G' (\<lambda>a b. c a b + pair_count (combinations2 (sorted_list (map Player rows))) a b)"
proof -
  from sorted_cells_unmixed [OF assms(3)] obtain ps where
    s: "sorted_cells (map Player rows) = Inr ps" and sp: "set ps = Player ` set rows"
    by auto
  from s have sl: "sorted_list (map Player rows) = ps" by (simp add: sorted_list_def)
  from edge_loop_counted [OF assms(1,2), of "combinations2 ps"] obtain G' where
    r: "for_loop edge_body (combinations2 ps) G = Inr G'" and i: "graph_inv G'"
    and k: "keeps_nodes G G'"
    and n: "set (nodes G') = set (nodes G) \<union> fst ` set (combinations2 ps) \<union> snd ` set (combinations2 ps)"
    and c: "counted G' (\<lambda>a b. c a b + pair_count (combinations2 ps) a b)"
    by blast
  have "fst ` set (combinations2 ps) \<union> snd ` set (combinations2 ps) \<subseteq> set ps"
    using set_combinations2 [of ps] by force
  with n sp have n': "set (nodes G') \<subseteq> set (nodes G) \<union> Player ` set rows" by blast
  have b: "group_body (key, rows) G = Inr G'" using s r by (simp add: group_body_def)
  from b i k n' c show ?thesis unfolding sl by blast
qed

lemma group_loop_counted:
  assumes "graph_inv G" and "counted G c" and "\<forall>g\<in>set gs. \<not> mixed (map Player (snd g))"
  shows "\<exists>G'. for_loop group_body gs G = Inr G' \<and> graph_inv G' \<and> keeps_nodes G G' \<and>
           set (nodes G') \<subseteq> set (nodes G) \<union> (\<Union>g\<in>set gs. Player ` set (snd g)) \<and>
           counted G' (\<lambda>a b. c a b + group_pairs gs a b)"
  using assms
proof (induction gs arbitrary: G c)
  case Nil
  then show ?case by (simp add: group_pairs_def keeps_nodes_refl)
next
  case (Cons g gs)
  obtain key rows where g: "g = (key, rows)" by (cases g)
  let ?n = "\<lambda>a b. pair_count (combinations2 (sorted_list (map Player rows))) a b"
  from Cons.prems(3) g have m: "\<not> mixed (map Player rows)"
    and rest: "\<forall>g\<in>set gs. \<not> mixed (map Player (snd g))" by simp_all
  from group_body_counted [OF Cons.prems(1,2) m, of key] obtain G1 where
    1: "group_body (key, rows) G = Inr G1" "graph_inv G1" "keeps_nodes G G1"
    "set (nodes G1) \<subseteq> set (nodes G) \<union> Player ` set rows"
    "counted G1 (\<lambda>a b. c a b + ?n a b)"
    by blast
  from Cons.IH [OF 1(2) 1(5) rest] obtain G' where
    2: "for_loop group_body gs G1 = Inr G'" "graph_inv G'" "keeps_nodes G1 G'"
    "set (nodes G') \<subseteq> set (nodes G1) \<union> (\<Union>g\<in>set gs. Player ` set (snd g))"
    "counted G' (\<lambda>a b. c a b + ?n a b + group_pairs gs a b)"
    by blast
  have "(\<lambda>a b. c a b + ?n a b + group_pairs gs a b) = (\<lambda>a b. c a b + group_pairs (g # gs) a b)"
    by (simp add: g group_pairs_def add.assoc)
  with 2(5) have c': "counted G' (\<lambda>a b. c a b + group_pairs (g # gs) a b)" by simp
  have n': "set (nodes G') \<subseteq> set (nodes G) \<union> (\<Union>g\<in>set (g # gs). Player ` set (snd g))"
    using 1(4) 2(4) g by auto
  have r: "for_loop group_body (g # gs) G = Inr G'" using 1(1) 2(1) g by simp
  from r 2(2) keeps_nodes_trans [OF 1(3) 2(3)] n' c' show ?case by blast
qed

lemma group_loop_fails:
  assumes "graph_inv G" and "counted G c" and "\<exists>g\<in>set gs. mixed (map Player (snd g))"
  shows "for_loop group_body gs G = Inl TypeError"
  using assms
proof (induction gs arbitrary: G c)
  case Nil
  then show ?case by simp
next
  case (Cons g gs)
  obtain key rows where g: "g = (key, rows)" by (cases g)
  show ?case
  proof (cases "mixed (map Player rows)")
    case True
    from group_body_mixed [OF True, of key G] g show ?thesis by simp
  next
    case False
    with Cons.prems(3) g have rest: "\<exists>g\<in>set gs. mixed (map Player (snd g))" by simp
    from group_body_counted [OF Cons.prems(1,2) False, of key] obtain G1 c1 where
      1: "group_body (key, rows) G = Inr G1" "graph_inv G1" "counted G1 c1"
      by blast
    from Cons.IH [OF 1(2,3) rest] 1(1) g show ?thesis by simp
  qed
qed

text \<open>The graph after the loop that adds the nodes: no node has a neighbour yet.\<close>

definition no_edges :: "'n graph \<Rightarrow> bool" where
  "no_edges G \<longleftrightarrow> (\<forall>x nb. map_of (adj G) x = Some nb \<longrightarrow> nb = [])"

lemma no_edges_attrs:
  assumes "no_edges G"
  shows "edge_attrs G u v = None"
proof (cases "map_of (adj G) u")
  case None
  then show ?thesis by (simp add: edge_attrs_def)
next
  case (Some nb)
  with assms have "nb = []" unfolding no_edges_def by blast
  with Some show ?thesis by (simp add: edge_attrs_def)
qed

lemma add_node_inv:
  assumes "graph_inv G" and "no_edges G"
  shows "graph_inv (add_node G n w) \<and> no_edges (add_node G n w)"
proof -
  let ?G = "add_node G n w"
  from assms(1) have dn: "distinct (map fst (node G))" and da: "distinct (map fst (adj G))"
    and keys: "fst ` set (adj G) = fst ` set (node G)"
    unfolding graph_inv_map_of by blast+
  have ne: "no_edges ?G"
    using assms(2) by (auto simp: no_edges_def add_node_def update_conv' split: if_splits)
  have 1: "distinct (map fst (node ?G))" by (simp add: add_node_def distinct_update dn)
  have 2: "distinct (map fst (adj ?G))" by (simp add: add_node_def distinct_update da)
  have 3: "fst ` set (adj ?G) = fst ` set (node ?G)"
    using keys by (auto simp: add_node_def dom_update map_of_eq_None_iff)
  have 4: "distinct (map fst nb) \<and> fst ` set nb \<subseteq> fst ` set (node ?G)"
    if "map_of (adj ?G) x = Some nb" for x nb
  proof -
    from ne that have "nb = []" unfolding no_edges_def by blast
    then show ?thesis by simp
  qed
  have 5: "undirected ?G" by (simp add: undirected_def no_edges_attrs [OF ne])
  from 1 2 3 4 5 have "graph_inv ?G" unfolding graph_inv_map_of by blast
  with ne show ?thesis by simp
qed

lemma add_nodes_result:
  assumes "graph_inv G" and "no_edges G" and "\<forall>(p, c)\<in>set vc. c = g p"
  shows "graph_inv (fold (\<lambda>(player, count) G. add_node G player count) vc G) \<and>
     no_edges (fold (\<lambda>(player, count) G. add_node G player count) vc G) \<and>
     (\<forall>p. map_of (node (fold (\<lambda>(player, count) G. add_node G player count) vc G)) p =
        (if p \<in> fst ` set vc then Some (Some (g p)) else map_of (node G) p))"
  using assms
proof (induction vc arbitrary: G)
  case Nil
  then show ?case by simp
next
  case (Cons x vc)
  obtain q c where x: "x = (q, c)" by (cases x)
  from Cons.prems(3) x have c: "c = g q" and rest: "\<forall>(p, c)\<in>set vc. c = g p" by simp_all
  from add_node_inv [OF Cons.prems(1,2), of q c] have
    i: "graph_inv (add_node G q c)" and e: "no_edges (add_node G q c)" by simp_all
  have m: "map_of (node (add_node G q c)) p = (if p = q then Some (Some (g q)) else map_of (node G) p)"
    for p by (simp add: add_node_def update_conv' c)
  from Cons.IH [OF i e rest] show ?case by (simp add: x m)
qed

lemma graph_inv_empty: "graph_inv empty_graph \<and> no_edges empty_graph"
  by (simp add: graph_inv_def empty_graph_def no_edges_def undirected_def nodes_def)

text \<open>The tables on which \<^verbatim>\<open>sorted(players)\<close> raises: some group holds a row without
  player name and a row with one.\<close>

definition mixed_group :: "row list \<Rightarrow> bool" where
  "mixed_group df \<longleftrightarrow>
     (\<exists>r\<in>set df. \<exists>r'\<in>set df.
        group_key r \<noteq> None \<and> group_key r = group_key r' \<and> Player r = NaN \<and> Player r' \<noteq> NaN)"

lemma set_map_filter_keys: "set (List.map_filter f xs) = {y. \<exists>x\<in>set xs. f x = Some y}"
  by (induction xs) (auto split: option.splits)

lemma grouped_entries:
  "set (grouped df) =
     {(k, filter (\<lambda>r. group_key r = Some k) df) | k. \<exists>r\<in>set df. group_key r = Some k}"
  by (auto simp: grouped_def set_map_filter_keys)

lemma mixed_group_iff: "mixed_group df \<longleftrightarrow> (\<exists>g\<in>set (grouped df). mixed (map Player (snd g)))"
proof
  assume "mixed_group df"
  then obtain r r' k where r: "r \<in> set df" "r' \<in> set df" "group_key r = Some k"
    "group_key r' = Some k" "Player r = NaN" "Player r' \<noteq> NaN"
    unfolding mixed_group_def by force
  let ?rows = "filter (\<lambda>r. group_key r = Some k) df"
  from r(1,3) have in_g: "(k, ?rows) \<in> set (grouped df)" unfolding grouped_entries by blast
  from r have "r \<in> set ?rows" "r' \<in> set ?rows" by simp_all
  with r(5,6) have "NaN \<in> set (map Player ?rows)" "\<exists>c\<in>set (map Player ?rows). c \<noteq> NaN"
    by force+
  then have "mixed (map Player (snd (k, ?rows)))" by (simp add: mixed_def)
  with in_g show "\<exists>g\<in>set (grouped df). mixed (map Player (snd g))" by blast
next
  assume "\<exists>g\<in>set (grouped df). mixed (map Player (snd g))"
  then obtain k where m: "mixed (map Player (filter (\<lambda>r. group_key r = Some k) df))"
    unfolding grouped_entries by auto
  then obtain r r' where r: "r \<in> set df" "group_key r = Some k" "Player r = NaN"
    "r' \<in> set df" "group_key r' = Some k" "Player r' \<noteq> NaN"
    unfolding mixed_def by force
  from r(2) have 1: "group_key r \<noteq> None" by simp
  from r(2,5) have 2: "group_key r = group_key r'" by simp
  from 1 2 r(3,6)
  have "group_key r \<noteq> None \<and> group_key r = group_key r' \<and> Player r = NaN \<and> Player r' \<noteq> NaN"
    by (intro conjI)
  with r(1,4) show "mixed_group df" unfolding mixed_group_def by (intro bexI [of _ r] bexI [of _ r'])
qed

lemma count_list_filter: "P p \<Longrightarrow> count_list (filter P xs) p = count_list xs p"
  by (induction xs) auto

lemma value_counts_entries:
  "set (value_counts xs) = (\<lambda>p. (p, int (count_list xs p))) ` (set xs - {NaN})"
proof -
  have "set (value_counts xs)
      = (\<lambda>p. (p, int (count_list (filter (\<lambda>c. c \<noteq> NaN) xs) p))) ` set (filter (\<lambda>c. c \<noteq> NaN) xs)"
    by (simp add: value_counts_def Let_def)
  also have "\<dots> = (\<lambda>p. (p, int (count_list xs p))) ` set (filter (\<lambda>c. c \<noteq> NaN) xs)"
    by (rule image_cong) (simp_all add: count_list_filter)
  also have "set (filter (\<lambda>c. c \<noteq> NaN) xs) = set xs - {NaN}" by auto
  finally show ?thesis .
qed

lemma grouped_players:
  assumes "g \<in> set (grouped df)"
  shows "Player ` set (snd g) \<subseteq> Player ` set df"
  using assms unfolding grouped_entries by auto

text \<open>What the construction does, for every table. It raises, in \<^verbatim>\<open>sorted(players)\<close>,
  exactly when some group mixes a missing player name with a name. Otherwise it returns
  a graph that satisfies the invariant; every player name of the table is a node whose
  weight is the number of rows naming the player, and the edges are the pairs the loops
  went through, each weighted with the number of times it was met.\<close>

lemma build_graph_result:
  "(mixed_group df \<longrightarrow> build_graph df = Inl TypeError) \<and>
   (\<not> mixed_group df \<longrightarrow>
      (\<exists>G. build_graph df = Inr G \<and> graph_inv G \<and> set (nodes G) \<subseteq> Player ` set df \<and>
         (\<forall>p\<in>Player ` set df. p \<noteq> NaN \<longrightarrow>
            map_of (node G) p = Some (Some (int (count_list (map Player df) p)))) \<and>
         counted G (group_pairs (grouped df))))"
proof -
  let ?vc = "value_counts (map Player df)"
  let ?G0 = "fold (\<lambda>(player, count) G. add_node G player count) ?vc empty_graph"
  have b: "build_graph df = for_loop group_body (grouped df) ?G0"
    by (simp add: build_graph_def Let_def)
  have vc: "\<forall>(p, c)\<in>set ?vc. c = int (count_list (map Player df) p)"
    by (auto simp: value_counts_entries)
  from add_nodes_result [OF graph_inv_empty [THEN conjunct1] graph_inv_empty [THEN conjunct2] vc]
  have i0: "graph_inv ?G0" and e0: "no_edges ?G0"
    and m0: "\<And>p. map_of (node ?G0) p =
        (if p \<in> fst ` set ?vc then Some (Some (int (count_list (map Player df) p)))
         else map_of (node (empty_graph :: cell graph)) p)"
    by blast+
  have keys: "fst ` set ?vc = Player ` set df - {NaN}"
    by (force simp: value_counts_entries)
  have m: "map_of (node ?G0) p =
        (if p \<in> Player ` set df - {NaN} then Some (Some (int (count_list (map Player df) p))) else None)"
    for p using m0 [of p] by (simp only: keys) (simp add: empty_graph_def)
  have c0: "counted ?G0 (\<lambda>a b. 0)"
    by (simp add: counted_def no_edges_attrs [OF e0])
  have n0: "set (nodes ?G0) = Player ` set df - {NaN}"
  proof (intro set_eqI)
    fix p
    show "p \<in> set (nodes ?G0) \<longleftrightarrow> p \<in> Player ` set df - {NaN}"
      unfolding in_nodes_iff m [of p] by simp
  qed
  show ?thesis
  proof (intro conjI impI)
    assume "mixed_group df"
    then have "\<exists>g\<in>set (grouped df). mixed (map Player (snd g))" by (simp only: mixed_group_iff)
    from group_loop_fails [OF i0 c0 this] b show "build_graph df = Inl TypeError" by simp
  next
    assume "\<not> mixed_group df"
    then have "\<forall>g\<in>set (grouped df). \<not> mixed (map Player (snd g))" by (simp add: mixed_group_iff)
    from group_loop_counted [OF i0 c0 this] obtain G where
      r: "for_loop group_body (grouped df) ?G0 = Inr G" and i: "graph_inv G"
      and k: "keeps_nodes ?G0 G"
      and n: "set (nodes G) \<subseteq> set (nodes ?G0) \<union> (\<Union>g\<in>set (grouped df). Player ` set (snd g))"
      and c: "counted G (\<lambda>a b. 0 + group_pairs (grouped df) a b)"
      by blast
    from c have c': "counted G (group_pairs (grouped df))" by simp
    have n': "set (nodes G) \<subseteq> Player ` set df"
    proof
      fix p assume "p \<in> set (nodes G)"
      with n have "p \<in> set (nodes ?G0) \<or> (\<exists>g\<in>set (grouped df). p \<in> Player ` set (snd g))" by blast
      then show "p \<in> Player ` set df"
      proof
        assume "p \<in> set (nodes ?G0)"
        then show ?thesis unfolding n0 by blast
      next
        assume "\<exists>g\<in>set (grouped df). p \<in> Player ` set (snd g)"
        then obtain g where "g \<in> set (grouped df)" "p \<in> Player ` set (snd g)" by blast
        with grouped_players [of g df] show ?thesis by blast
      qed
    qed
    have w: "map_of (node G) p = Some (Some (int (count_list (map Player df) p)))"
      if "p \<in> Player ` set df" and "p \<noteq> NaN" for p
    proof -
      from that have "map_of (node ?G0) p = Some (Some (int (count_list (map Player df) p)))"
        by (simp add: m)
      with k show ?thesis unfolding keeps_nodes_def by blast
    qed
    have "build_graph df = Inr G \<and> graph_inv G \<and> set (nodes G) \<subseteq> Player ` set df \<and>
         (\<forall>p\<in>Player ` set df. p \<noteq> NaN \<longrightarrow>
            map_of (node G) p = Some (Some (int (count_list (map Player df) p)))) \<and>
         counted G (group_pairs (grouped df))"
      using b r i n' w c' by simp
    then show "\<exists>G. build_graph df = Inr G \<and> graph_inv G \<and> set (nodes G) \<subseteq> Player ` set df \<and>
         (\<forall>p\<in>Player ` set df. p \<noteq> NaN \<longrightarrow>
            map_of (node G) p = Some (Some (int (count_list (map Player df) p)))) \<and>
         counted G (group_pairs (grouped df))"
      by (rule exI [of _ G])
  qed
qed

text \<open>The groups (championship rosters) in which a player appears.\<close>

definition groups_of :: "row list \<Rightarrow> cell \<Rightarrow> (string \<times> string) set" where
  "groups_of df p = set (List.map_filter group_key (filter (\<lambda>r. Player r = p) df))"

text \<open>Four small tables: a roster that lists player A twice beside player B, a roster
  that consists of player A listed twice, a table in which the one row of a roster has
  no player name, and a roster with a row without player name beside a row with one.\<close>

definition table_repeated :: "row list" where
  "table_repeated =
     [\<lparr>Season = Text ''2023-24'', Team = Text ''Boston Celtics'', Year = 2024, Player = Text ''A''\<rparr>,
      \<lparr>Season = Text ''2023-24'', Team = Text ''Boston Celtics'', Year = 2024, Player = Text ''A''\<rparr>,
      \<lparr>Season = Text ''2023-24'', Team = Text ''Boston Celtics'', Year = 2024, Player = Text ''B''\<rparr>]"

definition table_one_member_twice :: "row list" where
  "table_one_member_twice =
     [\<lparr>Season = Text ''2023-24'', Team = Text ''Boston Celtics'', Year = 2024, Player = Text ''A''\<rparr>,
      \<lparr>Season = Text ''2023-24'', Team = Text ''Boston Celtics'', Year = 2024, Player = Text ''A''\<rparr>]"

definition table_missing_name :: "row list" where
  "table_missing_name =
     [\<lparr>Season = Text ''2022-23'', Team = Text ''Denver Nuggets'', Year = 2023, Player = Text ''A''\<rparr>,
      \<lparr>Season = Text ''2023-24'', Team = Text ''Boston Celtics'', Year = 2024, Player = NaN\<rparr>]"

definition table_mixed :: "row list" where
  "table_mixed =
     [\<lparr>Season = Text ''2023-24'', Team = Text ''Boston Celtics'', Year = 2024, Player = NaN\<rparr>,
      \<lparr>Season = Text ''2023-24'', Team = Text ''Boston Celtics'', Year = 2024, Player = Text ''A''\<rparr>]"

lemmas build_eval = build_graph_def value_counts_def grouped_def group_key_def group_body_def
  sorted_cells_def edge_body_def add_node_def add_edge_def ensure_node_def adj_setitem_def
  empty_graph_def has_edge_def incr_edge_weight_def edge_getitem_def Let_def

lemma build_table_repeated:
  "build_graph table_repeated =
     Inr \<lparr>node = [(Text ''A'', Some 2), (Text ''B'', Some 1)],
          adj = [(Text ''A'', [(Text ''A'', Some 1), (Text ''B'', Some 2)]),
                 (Text ''B'', [(Text ''A'', Some 2)])]\<rparr>"
  by (simp add: table_repeated_def build_eval)

lemma build_table_one_member_twice:
  "build_graph table_one_member_twice =
     Inr \<lparr>node = [(Text ''A'', Some 2)], adj = [(Text ''A'', [(Text ''A'', Some 1)])]\<rparr>"
  by (simp add: table_one_member_twice_def build_eval)

lemma build_table_missing_name:
  "build_graph table_missing_name =
     Inr \<lparr>node = [(Text ''A'', Some 1)], adj = [(Text ''A'', [])]\<rparr>"
  by (simp add: table_missing_name_def build_eval)

lemma build_table_mixed: "build_graph table_mixed = Inl TypeError"
  by (simp add: table_mixed_def build_eval)

lemma groups_table_repeated:
  "groups_of table_repeated (Text ''A'') = {(''2023-24'', ''Boston Celtics'')}"
  "groups_of table_repeated (Text ''B'') = {(''2023-24'', ''Boston Celtics'')}"
  by (simp_all add: groups_of_def table_repeated_def group_key_def)

lemma mixed_group_table_mixed: "mixed_group table_mixed"
  by (simp add: mixed_group_def table_mixed_def group_key_def)

lemma not_mixed_group_table_missing_name: "\<not> mixed_group table_missing_name"
  by (simp add: mixed_group_def table_missing_name_def group_key_def)

section \<open>Tables in which no roster repeats a player\<close>

text \<open>No group lists a player twice: the rows that belong to a group differ in their
  group or in their player.\<close>

definition no_repeated_member :: "row list \<Rightarrow> bool" where
  "no_repeated_member df \<longleftrightarrow>
     distinct (map (\<lambda>r. (group_key r, Player r)) (filter (\<lambda>r. group_key r \<noteq> None) df))"

lemma groups_of_iff: "k \<in> groups_of df p \<longleftrightarrow> (\<exists>r\<in>set df. Player r = p \<and> group_key r = Some k)"
  by (auto simp: groups_of_def set_map_filter_keys)

lemma distinct_players_of_group:
  assumes "no_repeated_member df"
  shows "distinct (map Player (filter (\<lambda>r. group_key r = Some k) df))"
proof -
  let ?ys = "filter (\<lambda>r. group_key r \<noteq> None) df"
  have f: "filter (\<lambda>r. group_key r = Some k) ?ys = filter (\<lambda>r. group_key r = Some k) df"
    by (induction df) auto
  have "distinct (map (\<lambda>r. (group_key r, Player r)) (filter (\<lambda>r. group_key r = Some k) ?ys))"
    using assms unfolding no_repeated_member_def by (rule distinct_map_filter)
  then have "distinct (map (\<lambda>r. (group_key r, Player r)) (filter (\<lambda>r. group_key r = Some k) df))"
    by (simp only: f)
  moreover have "map (\<lambda>r. (group_key r, Player r)) (filter (\<lambda>r. group_key r = Some k) df)
      = map (Pair (Some k)) (map Player (filter (\<lambda>r. group_key r = Some k) df))"
    by (induction df) simp_all
  ultimately have "distinct (map (Pair (Some k)) (map Player (filter (\<lambda>r. group_key r = Some k) df)))"
    by simp
  then show ?thesis unfolding distinct_map by (rule conjunct1)
qed

lemma distinct_groups_of_player:
  assumes "no_repeated_member df"
  shows "distinct (List.map_filter group_key (filter (\<lambda>r. Player r = p) df))"
proof -
  let ?ys = "filter (\<lambda>r. group_key r \<noteq> None) df"
  have "distinct (map (\<lambda>r. (group_key r, Player r)) (filter (\<lambda>r. Player r = p) ?ys))"
    using assms unfolding no_repeated_member_def by (rule distinct_map_filter)
  moreover have "map (\<lambda>r. (group_key r, Player r)) (filter (\<lambda>r. Player r = p) ?ys)
      = map (\<lambda>k. (Some k, p)) (List.map_filter group_key (filter (\<lambda>r. Player r = p) df))"
    by (induction df) (auto split: option.splits)
  ultimately have "distinct (map (\<lambda>k. (Some k, p)) (List.map_filter group_key (filter (\<lambda>r. Player r = p) df)))"
    by simp
  then show ?thesis unfolding distinct_map by (rule conjunct1)
qed

lemma count_rows_eq_groups:
  assumes "no_repeated_member df" and "\<forall>r\<in>set df. group_key r \<noteq> None"
  shows "count_list (map Player df) p = card (groups_of df p)"
proof -
  have "count_list (map Player df) p = length (filter (\<lambda>r. Player r = p) df)"
    by (induction df) simp_all
  also have "\<dots> = length (List.map_filter group_key (filter (\<lambda>r. Player r = p) df))"
    using assms(2) by (induction df) (auto split: option.splits)
  also have "\<dots> = card (groups_of df p)"
    unfolding groups_of_def
    by (rule distinct_card [OF distinct_groups_of_player [OF assms(1)], symmetric])
  finally show ?thesis .
qed

lemma length_filter_eq_distinct:
  assumes "distinct xs"
  shows "length (filter (\<lambda>y. y = b) xs) = (if b \<in> set xs then 1 else 0)"
  using assms by (induction xs) auto

lemma pair_count_row:
  assumes "distinct xs" and "x \<notin> set xs"
  shows "pair_count (map (Pair x) xs) a b =
           (if (a = x \<and> b \<in> set xs) \<or> (b = x \<and> a \<in> set xs) then 1 else 0)"
proof -
  have pc: "pair_count (map (Pair x) xs) a b
      = length (filter (\<lambda>y. (a = x \<and> b = y) \<or> (a = y \<and> b = x)) xs)"
    by (simp add: pair_count_def filter_map comp_def)
  show ?thesis
  proof (cases "a = x")
    case True
    with assms(2) have "(\<lambda>y. (a = x \<and> b = y) \<or> (a = y \<and> b = x)) = (\<lambda>y. y = b)"
      if "b \<noteq> x" using that by (auto simp: fun_eq_iff)
    show ?thesis
    proof (cases "b = x")
      case bx: True
      with True assms(2) have "filter (\<lambda>y. (a = x \<and> b = y) \<or> (a = y \<and> b = x)) xs = []"
        by (auto simp: filter_empty_conv)
      with pc True bx assms(2) show ?thesis by simp
    next
      case bx: False
      with True have "filter (\<lambda>y. (a = x \<and> b = y) \<or> (a = y \<and> b = x)) xs = filter (\<lambda>y. y = b) xs"
        by (intro filter_cong) auto
      with pc length_filter_eq_distinct [OF assms(1), of b] True bx assms(2) show ?thesis by simp
    qed
  next
    case False
    show ?thesis
    proof (cases "b = x")
      case bx: True
      with False have "filter (\<lambda>y. (a = x \<and> b = y) \<or> (a = y \<and> b = x)) xs = filter (\<lambda>y. y = a) xs"
        by (intro filter_cong) auto
      with pc length_filter_eq_distinct [OF assms(1), of a] False bx show ?thesis by simp
    next
      case bx: False
      with False have "filter (\<lambda>y. (a = x \<and> b = y) \<or> (a = y \<and> b = x)) xs = []"
        by (auto simp: filter_empty_conv)
      with pc False bx show ?thesis by simp
    qed
  qed
qed

lemma pair_count_combinations2:
  assumes "distinct xs"
  shows "pair_count (combinations2 xs) a b = (if a \<noteq> b \<and> a \<in> set xs \<and> b \<in> set xs then 1 else 0)"
  using assms
proof (induction xs)
  case Nil
  show ?case by (simp add: pair_count_Nil)
next
  case (Cons x xs)
  from Cons.prems have d: "distinct xs" and x: "x \<notin> set xs" by simp_all
  have "pair_count (combinations2 (x # xs)) a b
      = pair_count (map (Pair x) xs) a b + pair_count (combinations2 xs) a b"
    by (simp add: pair_count_append)
  also have "\<dots> = (if (a = x \<and> b \<in> set xs) \<or> (b = x \<and> a \<in> set xs) then 1 else 0)
      + (if a \<noteq> b \<and> a \<in> set xs \<and> b \<in> set xs then 1 else 0)"
    by (simp only: pair_count_row [OF d x] Cons.IH [OF d])
  also have "\<dots> = (if a \<noteq> b \<and> a \<in> set (x # xs) \<and> b \<in> set (x # xs) then 1 else 0)"
    using x by auto
  finally show ?case .
qed

lemma sum_list_indicator:
  assumes "distinct ks"
  shows "sum_list (map (\<lambda>k. if P k then 1 else 0) ks) = card {k \<in> set ks. P k}"
proof -
  have "sum_list (map (\<lambda>k. if P k then 1 else (0::nat)) ks) = length (filter P ks)"
    by (induction ks) simp_all
  also have "\<dots> = card ({k. P k} \<inter> set ks)"
    by (rule distinct_length_filter [OF assms])
  also have "{k. P k} \<inter> set ks = {k \<in> set ks. P k}" by blast
  finally show ?thesis .
qed

lemma sorted_list_distinct:
  assumes "\<not> mixed cs" and "distinct cs"
  shows "distinct (sorted_list cs) \<and> set (sorted_list cs) = set cs"
proof -
  from sorted_cells_unmixed [OF assms(1)] obtain ps where
    s: "sorted_cells cs = Inr ps" and sp: "set ps = set cs" and l: "length ps = length cs"
    by blast
  from assms(2) have "card (set cs) = length cs" by (rule distinct_card)
  with sp l have "card (set ps) = length ps" by simp
  then have "distinct ps" by (rule card_distinct)
  with s sp show ?thesis by (simp add: sorted_list_def)
qed

lemma group_pairs_grouped:
  assumes "no_repeated_member df" and "\<not> mixed_group df"
  shows "group_pairs (grouped df) a b
           = (if a \<noteq> b then card (groups_of df a \<inter> groups_of df b) else 0)"
proof -
  let ?ks = "sort (remdups (List.map_filter group_key df))"
  let ?rows = "\<lambda>k. filter (\<lambda>r. group_key r = Some k) df"
  have ks: "set ?ks = {k. \<exists>r\<in>set df. group_key r = Some k}"
    by (simp add: set_map_filter_keys)
  have unmixed: "\<not> mixed (map Player (?rows k))" if "k \<in> set ?ks" for k
  proof -
    from that have "(k, ?rows k) \<in> set (grouped df)" by (simp add: grouped_def)
    with assms(2) show ?thesis unfolding mixed_group_iff by force
  qed
  have each: "pair_count (combinations2 (sorted_list (map Player (?rows k)))) a b
      = (if a \<noteq> b \<and> k \<in> groups_of df a \<and> k \<in> groups_of df b then 1 else 0)"
    if "k \<in> set ?ks" for k
  proof -
    from sorted_list_distinct [OF unmixed [OF that] distinct_players_of_group [OF assms(1), of k]]
    have d: "distinct (sorted_list (map Player (?rows k)))"
      and s: "set (sorted_list (map Player (?rows k))) = set (map Player (?rows k))"
      by simp_all
    have mem: "p \<in> set (map Player (?rows k)) \<longleftrightarrow> k \<in> groups_of df p" for p
      by (auto simp: groups_of_iff)
    from pair_count_combinations2 [OF d, of a b] show ?thesis
      by (simp only: s mem)
  qed
  have "group_pairs (grouped df) a b
      = sum_list (map (\<lambda>k. pair_count (combinations2 (sorted_list (map Player (?rows k)))) a b) ?ks)"
    by (simp add: group_pairs_def grouped_def comp_def)
  also have "\<dots> = sum_list (map (\<lambda>k. if a \<noteq> b \<and> k \<in> groups_of df a \<and> k \<in> groups_of df b
      then 1 else 0) ?ks)"
    by (rule arg_cong [where f = sum_list], rule map_cong [OF refl]) (rule each)
  also have "\<dots> = card {k \<in> set ?ks. a \<noteq> b \<and> k \<in> groups_of df a \<and> k \<in> groups_of df b}"
    by (rule sum_list_indicator) simp
  also have "\<dots> = (if a \<noteq> b then card (groups_of df a \<inter> groups_of df b) else 0)"
  proof (cases "a = b")
    case True
    then show ?thesis by simp
  next
    case False
    have "{k \<in> set ?ks. k \<in> groups_of df a \<and> k \<in> groups_of df b}
        = groups_of df a \<inter> groups_of df b"
      unfolding ks by (auto simp: groups_of_iff)
    with False show ?thesis by simp
  qed
  finally show ?thesis .
qed

text \<open>On a table in which no roster repeats a player and no roster mixes a missing
  name with a name, the construction does what the notebook says of it: the weight of a
  player who has a group in every row is the number of distinct groups that contain the
  player, no node has a self-loop, and two distinct players are joined exactly when
  they share a group, the weight of the edge being the number of shared groups.\<close>

lemma build_graph_no_repeated_member:
  assumes "no_repeated_member df" and "\<not> mixed_group df"
  shows "\<exists>G. build_graph df = Inr G \<and> graph_inv G \<and>
     ((\<forall>r\<in>set df. group_key r \<noteq> None) \<longrightarrow>
        (\<forall>p\<in>Player ` set df. p \<noteq> NaN \<longrightarrow>
           nodes_getitem G p = Inr (Some (int (card (groups_of df p)))))) \<and>
     (\<forall>u. \<not> has_edge G u u) \<and>
     (\<forall>u v. u \<noteq> v \<longrightarrow>
        edge_attrs G u v =
          (if card (groups_of df u \<inter> groups_of df v) = 0 then None
           else Some (Some (int (card (groups_of df u \<inter> groups_of df v))))))"
proof -
  from build_graph_result [of df] assms(2) obtain G where
    b: "build_graph df = Inr G" and i: "graph_inv G"
    and w: "\<forall>p\<in>Player ` set df. p \<noteq> NaN \<longrightarrow>
            map_of (node G) p = Some (Some (int (count_list (map Player df) p)))"
    and c: "counted G (group_pairs (grouped df))"
    by blast
  have a: "edge_attrs G u v = (if group_pairs (grouped df) u v = 0 then None
      else Some (Some (int (group_pairs (grouped df) u v))))" for u v
    using c unfolding counted_def by blast
  have loops: "\<not> has_edge G u u" for u
    using a [of u u] by (simp add: has_edge_iff_attrs group_pairs_grouped [OF assms])
  have edges: "edge_attrs G u v =
          (if card (groups_of df u \<inter> groups_of df v) = 0 then None
           else Some (Some (int (card (groups_of df u \<inter> groups_of df v)))))"
    if "u \<noteq> v" for u v
  proof -
    from that have "group_pairs (grouped df) u v = card (groups_of df u \<inter> groups_of df v)"
      by (simp add: group_pairs_grouped [OF assms])
    with a [of u v] show ?thesis by (simp only:)
  qed
  have weights: "nodes_getitem G p = Inr (Some (int (card (groups_of df p))))"
    if k: "\<forall>r\<in>set df. group_key r \<noteq> None" and p: "p \<in> Player ` set df" "p \<noteq> NaN" for p
  proof -
    from w p have "map_of (node G) p = Some (Some (int (count_list (map Player df) p)))" by blast
    with count_rows_eq_groups [OF assms(1) k, of p] show ?thesis
      by (simp add: nodes_getitem_def)
  qed
  show ?thesis
  proof (intro exI [of _ G] conjI)
    show "build_graph df = Inr G" by (rule b)
    show "graph_inv G" by (rule i)
    show "(\<forall>r\<in>set df. group_key r \<noteq> None) \<longrightarrow>
        (\<forall>p\<in>Player ` set df. p \<noteq> NaN \<longrightarrow>
           nodes_getitem G p = Inr (Some (int (card (groups_of df p)))))"
      using weights by blast
    show "\<forall>u. \<not> has_edge G u u" using loops by blast
    show "\<forall>u v. u \<noteq> v \<longrightarrow>
        edge_attrs G u v =
          (if card (groups_of df u \<inter> groups_of df v) = 0 then None
           else Some (Some (int (card (groups_of df u \<inter> groups_of df v)))))"
      using edges by blast
  qed
qed

section \<open>Node weights\<close>

text \<open>
  Claim C4. The notebook takes the weight of a node to be the number of championships
  the player has won, the number of distinct groups that contain the player. The code
  counts the rows that name the player instead: on the roster that lists player A twice
  the construction gives A the weight 2, although A is in one group only.
\<close>

theorem node_weight_repeated_member:
  "build_graph table_repeated =
     Inr \<lparr>node = [(Text ''A'', Some 2), (Text ''B'', Some 1)],
          adj = [(Text ''A'', [(Text ''A'', Some 1), (Text ''B'', Some 2)]),
                 (Text ''B'', [(Text ''A'', Some 2)])]\<rparr> \<and>
   nodes_getitem
     \<lparr>node = [(Text ''A'', Some 2), (Text ''B'', Some 1)],
      adj = [(Text ''A'', [(Text ''A'', Some 1), (Text ''B'', Some 2)]),
             (Text ''B'', [(Text ''A'', Some 2)])]\<rparr> (Text ''A'')
     = Inr (Some 2) \<and>
   card (groups_of table_repeated (Text ''A'')) = 1"
  by (simp add: build_table_repeated groups_table_repeated nodes_getitem_def)

section \<open>Edges\<close>

text \<open>
  Claim C5. The notebook takes the pairs of a roster to be the unique pairs of teammates
  and the weight of an edge to be the number of championships the two won together. The
  code pairs the positions of the sorted list of the roster's rows as it stands: on the
  roster that lists player A twice, A gets an edge to itself, and the edge between A and
  B gets the weight 2, although A and B share one group only.
\<close>

theorem edges_repeated_member:
  "build_graph table_repeated =
     Inr \<lparr>node = [(Text ''A'', Some 2), (Text ''B'', Some 1)],
          adj = [(Text ''A'', [(Text ''A'', Some 1), (Text ''B'', Some 2)]),
                 (Text ''B'', [(Text ''A'', Some 2)])]\<rparr> \<and>
   has_edge
     \<lparr>node = [(Text ''A'', Some 2), (Text ''B'', Some 1)],
      adj = [(Text ''A'', [(Text ''A'', Some 1), (Text ''B'', Some 2)]),
             (Text ''B'', [(Text ''A'', Some 2)])]\<rparr> (Text ''A'') (Text ''A'') \<and>
   edge_getitem
     \<lparr>node = [(Text ''A'', Some 2), (Text ''B'', Some 1)],
      adj = [(Text ''A'', [(Text ''A'', Some 1), (Text ''B'', Some 2)]),
             (Text ''B'', [(Text ''A'', Some 2)])]\<rparr> (Text ''A'') (Text ''B'')
     = Inr (Some 2) \<and>
   card (groups_of table_repeated (Text ''A'') \<inter> groups_of table_repeated (Text ''B'')) = 1"
  by (simp add: build_table_repeated groups_table_repeated has_edge_def edge_getitem_def)

section \<open>Failures of the construction\<close>

lemma grouped_ignores_rows_without_key:
  "grouped (filter (\<lambda>r. group_key r \<noteq> None) df) = grouped df"
proof -
  have 1: "List.map_filter group_key (filter (\<lambda>r. group_key r \<noteq> None) df)
      = List.map_filter group_key df"
    by (induction df) (auto split: option.splits)
  have 2: "filter (\<lambda>r. group_key r = Some k) (filter (\<lambda>r. group_key r \<noteq> None) df)
      = filter (\<lambda>r. group_key r = Some k) df" for k
    by (induction df) auto
  show ?thesis by (simp only: grouped_def 1 2)
qed

lemma group_body_single_row: "group_body (key, [r]) H = Inr H"
  by (cases "Player r") (simp_all add: group_body_def sorted_cells_def)

text \<open>
  Claim C7, as the notebook has it. The construction checks no member name. It raises,
  the \<^verbatim>\<open>TypeError\<close> of \<^verbatim>\<open>sorted(players)\<close>, exactly when some group holds a row without
  member name and a row with one; on every other table it returns a graph. A row
  without season or team belongs to no group, so missing grouping cannot make it fail,
  and a group with a single row contributes no edges.
\<close>

theorem build_graph_fails_iff_mixed_group:
  "(build_graph df = Inl TypeError \<longleftrightarrow> mixed_group df) \<and>
   (\<not> mixed_group df \<longrightarrow> (\<exists>G. build_graph df = Inr G \<and> graph_inv G)) \<and>
   grouped (filter (\<lambda>r. group_key r \<noteq> None) df) = grouped df \<and>
   group_body (key, [r]) H = Inr H"
proof (intro conjI impI)
  show "build_graph df = Inl TypeError \<longleftrightarrow> mixed_group df"
  proof
    assume f: "build_graph df = Inl TypeError"
    show "mixed_group df"
    proof (rule ccontr)
      assume "\<not> mixed_group df"
      with build_graph_result [of df] obtain G where "build_graph df = Inr G" by blast
      with f show False by simp
    qed
  next
    assume "mixed_group df"
    with build_graph_result [of df] show "build_graph df = Inl TypeError" by blast
  qed
next
  assume "\<not> mixed_group df"
  with build_graph_result [of df] show "\<exists>G. build_graph df = Inr G \<and> graph_inv G" by blast
next
  show "grouped (filter (\<lambda>r. group_key r \<noteq> None) df) = grouped df"
    by (rule grouped_ignores_rows_without_key)
  show "group_body (key, [r]) H = Inr H" by (rule group_body_single_row)
qed

theorem build_graph_fails_iff_mixed_group_witness:
  "mixed_group table_mixed \<and> build_graph table_mixed = Inl TypeError \<and>
   \<not> mixed_group table_missing_name \<and>
   (\<exists>G. build_graph table_missing_name = Inr G \<and> graph_inv G)"
proof -
  from build_graph_fails_iff_mixed_group [of table_mixed] mixed_group_table_mixed
  have 1: "build_graph table_mixed = Inl TypeError" by blast
  from build_graph_fails_iff_mixed_group [of table_missing_name]
    not_mixed_group_table_missing_name
  have 2: "\<exists>G. build_graph table_missing_name = Inr G \<and> graph_inv G" by blast
  show ?thesis
    by (intro conjI) (fact mixed_group_table_mixed 1 not_mixed_group_table_missing_name 2)+
qed

theorem build_graph_missing_name_counterexample:
  "Player (table_missing_name ! 1) = NaN \<and>
   build_graph table_missing_name =
     Inr \<lparr>node = [(Text ''A'', Some 1)], adj = [(Text ''A'', [])]\<rparr> \<and>
   build_graph table_one_member_twice =
     Inr \<lparr>node = [(Text ''A'', Some 2)], adj = [(Text ''A'', [(Text ''A'', Some 1)])]\<rparr> \<and>
   has_edge \<lparr>node = [(Text ''A'', Some 2)], adj = [(Text ''A'', [(Text ''A'', Some 1)])]\<rparr>
     (Text ''A'') (Text ''A'')"
  by (simp add: build_table_missing_name build_table_one_member_twice has_edge_def)
    (simp add: table_missing_name_def)

end
